theory Spec2Isabelle
  imports
    Main
    "HOL-Library.Multiset"
    "HOL-Library.Sublist"
    "HOL-Library.Char_ord"
    "HOL-Library.List_Lexorder"
begin

section \<open>The call-graph scanner of parser.js\<close>

text \<open>
  A JavaScript string is modelled as a \<^typ>\<open>string\<close>, one \<^typ>\<open>char\<close> per code unit, so
  the model covers the strings whose code units are below 256. On these, \<open>\s\<close> and
  \<open>trim\<close> take tab, line feed, vertical tab, form feed, carriage return, space and the
  no-break space \<open>0xA0\<close>; \<open>\w\<close> is an ASCII letter, a digit or the underscore; a line
  terminator for \<open>.\<close> is line feed or carriage return; \<open>toUpperCase\<close> is given below. A
  line number is a \<^typ>\<open>nat\<close>. The node map of the source, a \<open>Map\<close> iterated in insertion
  order, is a list of nodes with distinct ids in insertion order; the set of edge keys is
  a set of strings. The source raises no exception and has no loop without a bound, so
  every function below is total and returns its result directly.
\<close>

subsection \<open>Data model\<close>

datatype kind = Entry | Function | Dynamic

record node =
  node_id :: string
  node_label :: string
  node_line :: nat
  node_kind :: kind

record edge =
  edge_from :: string
  edge_to :: string
  edge_type :: string
  edge_line :: nat

record graph =
  nodes :: "node list"
  edges :: "edge list"

text \<open>
  The mutable state of one run of \<open>parseRexxControlFlow\<close>: the node map, the edge array
  and the set of edge keys, with the two loop variables \<open>currentScope\<close> and
  \<open>inBlockComment\<close>.
\<close>

record scanner = graph +
  edgeKeys :: "string set"
  currentScope :: string
  inBlockComment :: bool

subsection \<open>Characters\<close>

definition upper_letters :: string where
  "upper_letters = ''ABCDEFGHIJKLMNOPQRSTUVWXYZ''"

definition lower_letters :: string where
  "lower_letters = ''abcdefghijklmnopqrstuvwxyz''"

definition digits :: string where
  "digits = ''0123456789''"

text \<open>The class \<open>\s\<close>.\<close>

definition is_space :: "char \<Rightarrow> bool" where
  "is_space c \<longleftrightarrow>
     c \<in> set [CHR 0x09, CHR 0x0A, CHR 0x0B, CHR 0x0C, CHR 0x0D, CHR 0x20, CHR 0xA0]"

text \<open>The characters that \<open>.\<close> does not match.\<close>

definition is_line_terminator :: "char \<Rightarrow> bool" where
  "is_line_terminator c \<longleftrightarrow> c = CHR 0x0A \<or> c = CHR 0x0D"

text \<open>The class \<open>\w\<close>, which decides \<open>\b\<close>.\<close>

definition is_word :: "char \<Rightarrow> bool" where
  "is_word c \<longleftrightarrow> c \<in> set (upper_letters @ lower_letters @ digits @ ''_'')"

text \<open>The class \<open>[A-Za-z0-9_.$!?@#]\<close> of the label pattern.\<close>

definition is_label_char :: "char \<Rightarrow> bool" where
  "is_label_char c \<longleftrightarrow> c \<in> set (upper_letters @ lower_letters @ digits @ ''_.$!?@#'')"

text \<open>The class \<open>[A-Z0-9_.$!?@#]\<close> of the call pattern.\<close>

definition is_target_char :: "char \<Rightarrow> bool" where
  "is_target_char c \<longleftrightarrow> c \<in> set (upper_letters @ digits @ ''_.$!?@#'')"

text \<open>
  \<open>toUpperCase\<close>, code unit by code unit. Below 256 the small letters with a capital are
  \<open>a\<close>..\<open>z\<close> and \<open>0xE0\<close>..\<open>0xFE\<close> without the division sign \<open>0xF7\<close>, each \<open>0x20\<close> above
  its capital, and the sharp s \<open>0xDF\<close>, whose capital form is the two letters \<open>SS\<close>. The
  micro sign \<open>0xB5\<close> and the y with diaeresis \<open>0xFF\<close> have capitals above 255 (\<open>U+039C\<close>
  and \<open>U+0178\<close>), which a \<^typ>\<open>char\<close> cannot hold: the model keeps the two characters
  themselves. Like their capitals, they are in no class and equal no literal of the call
  pattern, and the uppercased statement is used for nothing but that pattern, so the
  matches are the same.
\<close>

definition latin1_lower :: string where
  "latin1_lower =
     [CHR 0xE0, CHR 0xE1, CHR 0xE2, CHR 0xE3, CHR 0xE4, CHR 0xE5, CHR 0xE6, CHR 0xE7,
      CHR 0xE8, CHR 0xE9, CHR 0xEA, CHR 0xEB, CHR 0xEC, CHR 0xED, CHR 0xEE, CHR 0xEF,
      CHR 0xF0, CHR 0xF1, CHR 0xF2, CHR 0xF3, CHR 0xF4, CHR 0xF5, CHR 0xF6,
      CHR 0xF8, CHR 0xF9, CHR 0xFA, CHR 0xFB, CHR 0xFC, CHR 0xFD, CHR 0xFE]"

definition latin1_upper :: string where
  "latin1_upper =
     [CHR 0xC0, CHR 0xC1, CHR 0xC2, CHR 0xC3, CHR 0xC4, CHR 0xC5, CHR 0xC6, CHR 0xC7,
      CHR 0xC8, CHR 0xC9, CHR 0xCA, CHR 0xCB, CHR 0xCC, CHR 0xCD, CHR 0xCE, CHR 0xCF,
      CHR 0xD0, CHR 0xD1, CHR 0xD2, CHR 0xD3, CHR 0xD4, CHR 0xD5, CHR 0xD6,
      CHR 0xD8, CHR 0xD9, CHR 0xDA, CHR 0xDB, CHR 0xDC, CHR 0xDD, CHR 0xDE]"

definition upper_char :: "char \<Rightarrow> string" where
  "upper_char c =
     (if c = CHR 0xDF then ''SS''
      else case map_of (zip (lower_letters @ latin1_lower) (upper_letters @ latin1_upper)) c of
        Some u \<Rightarrow> [u]
      | None \<Rightarrow> [c])"

definition toUpperCase :: "string \<Rightarrow> string" where
  "toUpperCase s = concat (map upper_char s)"

definition trim :: "string \<Rightarrow> string" where
  "trim s = rev (dropWhile is_space (rev (dropWhile is_space s)))"

subsection \<open>normalizeLabel and collapse\<close>

definition normalizeLabel :: "string \<Rightarrow> string" where
  "normalizeLabel label = toUpperCase (trim label)"

text \<open>\<open>replace(/\s+/g, " ")\<close>: every maximal run of white space becomes one space.\<close>

function replace_ws_runs :: "string \<Rightarrow> string" where
  "replace_ws_runs [] = []"
| "replace_ws_runs (c # cs) =
     (if is_space c then CHR 0x20 # replace_ws_runs (dropWhile is_space cs)
      else c # replace_ws_runs cs)"
  by pat_completeness auto
termination
  by (relation "measure length") (auto simp: less_Suc_eq_le length_dropWhile_le)

definition collapse :: "string \<Rightarrow> string" where
  "collapse text = trim (replace_ws_runs text)"

subsection \<open>Splitting the source into lines\<close>

text \<open>\<open>source.split(/\r?\n/)\<close>; the first argument is the line read so far.\<close>

fun split_lines :: "string \<Rightarrow> string \<Rightarrow> string list" where
  "split_lines cur [] = [cur]"
| "split_lines cur [c] = (if c = CHR 0x0A then [cur, []] else [cur @ [c]])"
| "split_lines cur (c # d # cs) =
     (if c = CHR 0x0D \<and> d = CHR 0x0A then cur # split_lines [] cs
      else if c = CHR 0x0A then cur # split_lines [] (d # cs)
      else split_lines (cur @ [c]) (d # cs))"

subsection \<open>stripComments\<close>

text \<open>
  The loop of \<open>stripComments\<close> over the rest of the line; \<open>pair\<close> is the next two
  characters, and a pair that matches is skipped whole.
\<close>

fun stripComments_loop :: "string \<Rightarrow> bool \<Rightarrow> string \<Rightarrow> string \<times> bool" where
  "stripComments_loop [] inBC result = (result, inBC)"
| "stripComments_loop [c] inBC result = (if \<not> inBC then (result @ [c], inBC) else (result, inBC))"
| "stripComments_loop (c # d # cs) inBC result =
     (if \<not> inBC \<and> [c, d] = ''/*'' then stripComments_loop cs True result
      else if inBC \<and> [c, d] = ''*/'' then stripComments_loop cs False result
      else if \<not> inBC then stripComments_loop (d # cs) inBC (result @ [c])
      else stripComments_loop (d # cs) inBC result)"

definition stripComments :: "string \<Rightarrow> bool \<Rightarrow> string \<times> bool" where
  "stripComments line inBC = stripComments_loop line inBC []"

subsection \<open>splitStatements\<close>

text \<open>The loop of \<open>splitStatements\<close>, with its variables \<open>current\<close>, \<open>quote\<close> and \<open>out\<close>.\<close>

fun splitStatements_loop :: "string \<Rightarrow> string \<Rightarrow> char option \<Rightarrow> string list \<Rightarrow> string list" where
  "splitStatements_loop [] current quote out =
     (let tail = collapse current in if tail \<noteq> [] then out @ [tail] else out)"
| "splitStatements_loop (ch # cs) current (Some q) out =
     splitStatements_loop cs (current @ [ch]) (if ch = q then None else Some q) out"
| "splitStatements_loop (ch # cs) current None out =
     (if ch = CHR 0x27 \<or> ch = CHR 0x22 then splitStatements_loop cs (current @ [ch]) (Some ch) out
      else if ch = CHR '';'' then
        (let stmt = collapse current
         in splitStatements_loop cs [] None (if stmt \<noteq> [] then out @ [stmt] else out))
      else splitStatements_loop cs (current @ [ch]) None out)"

definition splitStatements :: "string \<Rightarrow> string list" where
  "splitStatements text = splitStatements_loop text [] None []"

subsection \<open>The graph builder: upsertNode and addEdge\<close>

fun upsertNode :: "node list \<Rightarrow> string \<Rightarrow> string \<Rightarrow> nat \<Rightarrow> kind \<Rightarrow> node list" where
  "upsertNode [] i label line k =
     [\<lparr>node_id = i, node_label = label, node_line = line, node_kind = k\<rparr>]"
| "upsertNode (existing # ns) i label line k =
     (if node_id existing = i then
        existing\<lparr>node_line := (if line < node_line existing then line else node_line existing),
                 node_kind := (if node_kind existing \<noteq> Entry \<and> k = Function then k
                               else node_kind existing)\<rparr> # ns
      else existing # upsertNode ns i label line k)"

definition edge_key :: "string \<Rightarrow> string \<Rightarrow> string \<Rightarrow> string" where
  "edge_key from to type = from @ ''->'' @ to @ '':'' @ type"

definition addEdge :: "scanner \<Rightarrow> string \<Rightarrow> string \<Rightarrow> string \<Rightarrow> nat \<Rightarrow> scanner" where
  "addEdge st from to type line =
     (if edge_key from to type \<in> edgeKeys st then st
      else st\<lparr>edgeKeys := insert (edge_key from to type) (edgeKeys st),
              edges := edges st @
                [\<lparr>edge_from = from, edge_to = to, edge_type = type, edge_line = line\<rparr>]\<rparr>)"

subsection \<open>The call pattern\<close>

text \<open>
  One attempt of \<open>/\bCALL\b\s*(VALUE\b|\(|([A-Z0-9_.$!?@#]+))/\<close> at a position of the
  uppercased statement: \<open>prev\<close> is the character before the position (none at the start)
  and \<open>s\<close> the text from the position on. The result is group 1, group 2 (absent when
  the third alternative did not take part) and the text after the match.
\<close>

definition starts_word :: "string \<Rightarrow> bool" where
  "starts_word s = (case s of [] \<Rightarrow> False | c # _ \<Rightarrow> is_word c)"

definition strip_prefix :: "string \<Rightarrow> string \<Rightarrow> string option" where
  "strip_prefix p s = (if take (length p) s = p then Some (drop (length p) s) else None)"

definition call_at :: "char option \<Rightarrow> string \<Rightarrow> (string \<times> string option \<times> string) option" where
  "call_at prev s =
     (if (case prev of None \<Rightarrow> False | Some p \<Rightarrow> is_word p) then None
      else case strip_prefix ''CALL'' s of
        None \<Rightarrow> None
      | Some r \<Rightarrow>
          if starts_word r then None
          else let r1 = dropWhile is_space r in
            (case strip_prefix ''VALUE'' r1 of
               Some r2 \<Rightarrow>
                 if \<not> starts_word r2 then Some (''VALUE'', None, r2)
                 else Some (takeWhile is_target_char r1, Some (takeWhile is_target_char r1),
                            dropWhile is_target_char r1)
             | None \<Rightarrow>
                 (case r1 of
                    [] \<Rightarrow> None
                  | c # r2 \<Rightarrow>
                      if c = CHR ''('' then Some (''('', None, r2)
                      else if is_target_char c then
                        Some (takeWhile is_target_char r1, Some (takeWhile is_target_char r1),
                              dropWhile is_target_char r1)
                      else None)))"

text \<open>
  The loop \<open>while ((match = callPattern.exec(upper)) !== null)\<close> of a global pattern:
  each search starts where the last match ended and tries every later position in turn;
  the character before a position is the last character of the match (the end of group 1)
  or the character just passed.
\<close>

function exec_loop :: "char option \<Rightarrow> string \<Rightarrow> (string \<times> string option) list" where
  "exec_loop prev [] = []"
| "exec_loop prev (c # cs) =
     (case call_at prev (c # cs) of
        Some (m1, m2, rest) \<Rightarrow> (m1, m2) # exec_loop (Some (last m1)) rest
      | None \<Rightarrow> exec_loop (Some c) cs)"
  by pat_completeness auto
termination
proof (relation "measure (\<lambda>(prev, s). length s)")
  show "wf (measure (\<lambda>(prev :: char option, s :: string). length s))"
    by simp
next
  fix prev :: "char option" and c :: char and cs :: string
  show "((Some c, cs), (prev, c # cs)) \<in> measure (\<lambda>(prev, s). length s)"
    by simp
next
  fix prev :: "char option" and c :: char and cs m1 :: string
    and x2 :: "string \<times> string option \<times> string" and y :: "string option \<times> string"
    and m2 :: "string option" and rest :: string
  assume "call_at prev (c # cs) = Some x2" and "(m1, y) = x2" and "(m2, rest) = y"
  then have m: "call_at prev (c # cs) = Some (m1, m2, rest)"
    by simp
  have len: "length r + length p = length s" if "strip_prefix p s = Some r" for p s r :: string
  proof -
    from that have t: "take (length p) s = p" and r: "r = drop (length p) s"
      by (auto simp: strip_prefix_def split: if_splits)
    have "length (take (length p) s) = length p"
      by (simp only: t)
    then have "length p \<le> length s"
      by simp
    with r show ?thesis by simp
  qed
  from m obtain r where r: "strip_prefix ''CALL'' (c # cs) = Some r"
    by (auto simp: call_at_def split: option.splits if_splits)
  define r1 where "r1 = dropWhile is_space r"
  have "length r1 \<le> length r"
    unfolding r1_def by (rule length_dropWhile_le)
  moreover have "length r + 4 = length (c # cs)"
    using len [OF r] by simp
  moreover have "length rest \<le> length r1"
  proof (cases "strip_prefix ''VALUE'' r1")
    case None
    with m r show ?thesis
      by (cases r1) (auto simp: call_at_def Let_def r1_def [symmetric] length_dropWhile_le le_SucI
          split: option.splits if_splits)
  next
    case (Some r2)
    from len [OF Some] have "length r2 \<le> length r1" by simp
    with m r Some show ?thesis
      by (auto simp: call_at_def Let_def r1_def [symmetric] length_dropWhile_le
          split: option.splits if_splits)
  qed
  ultimately have "length rest < length (c # cs)"
    by simp
  then show "((Some (last m1), rest), (prev, c # cs)) \<in> measure (\<lambda>(prev, s). length s)"
    by simp
qed

subsection \<open>processStatementBlock\<close>

text \<open>The body of the \<open>while\<close> loop for one match.\<close>

definition process_match :: "nat \<Rightarrow> string \<Rightarrow> string \<times> string option \<Rightarrow> scanner \<Rightarrow> scanner" where
  "process_match lineNo scope m st =
     (case m of (m1, m2) \<Rightarrow>
        if m1 = ''VALUE'' \<or> m1 = ''('' then
          addEdge (st\<lparr>nodes := upsertNode (nodes st) ''DYNAMIC_CALL'' ''DYNAMIC_CALL'' lineNo Dynamic\<rparr>)
            scope ''DYNAMIC_CALL'' ''calls-dynamic'' lineNo
        else
          let target = normalizeLabel (case m2 of Some t \<Rightarrow> t | None \<Rightarrow> ''undefined'')
          in if target = ''ON'' \<or> target = ''OFF'' then st
             else addEdge (st\<lparr>nodes := upsertNode (nodes st) target target lineNo Function\<rparr>)
                    scope target ''calls'' lineNo)"

definition process_segment :: "nat \<Rightarrow> string \<Rightarrow> string \<Rightarrow> scanner \<Rightarrow> scanner" where
  "process_segment lineNo scope segment st =
     fold (process_match lineNo scope) (exec_loop None (toUpperCase segment)) st"

definition processStatementBlock :: "string \<Rightarrow> nat \<Rightarrow> string \<Rightarrow> scanner \<Rightarrow> scanner" where
  "processStatementBlock text lineNo scope st =
     fold (process_segment lineNo scope) (splitStatements text) st"

subsection \<open>The label pattern\<close>

text \<open>
  \<open>line.match(/^([A-Za-z0-9_.$!?@#]+)\s*:\s*(.*)$/)\<close>: groups 1 and 2 of the match, if
  there is one. The class of group 1 has neither white space nor the colon, so the
  greedy group is the longest run of its characters; \<open>.\<close> matches no line terminator.
\<close>

definition label_match :: "string \<Rightarrow> (string \<times> string) option" where
  "label_match line =
     (let ident = takeWhile is_label_char line
      in if ident = [] then None
         else case dropWhile is_space (dropWhile is_label_char line) of
           [] \<Rightarrow> None
         | c # r \<Rightarrow>
             if c = CHR '':'' \<and> \<not> (\<exists>x \<in> set (dropWhile is_space r). is_line_terminator x)
             then Some (ident, dropWhile is_space r)
             else None)"

subsection \<open>parseRexxControlFlow\<close>

text \<open>The body of the \<open>for\<close> loop over the lines, for the line numbered \<open>lineNo\<close>.\<close>

definition scan_line :: "nat \<Rightarrow> string \<Rightarrow> scanner \<Rightarrow> scanner" where
  "scan_line lineNo raw st =
     (let stripped = stripComments raw (inBlockComment st);
          st1 = st\<lparr>inBlockComment := snd stripped\<rparr>;
          line = collapse (fst stripped)
      in if line = [] then st1
         else case label_match line of
           Some (label, rest) \<Rightarrow>
             let scope = normalizeLabel label;
                 st2 = st1\<lparr>currentScope := scope,
                           nodes := upsertNode (nodes st1) scope scope lineNo Function\<rparr>;
                 trailing = collapse rest
             in if trailing \<noteq> [] then processStatementBlock trailing lineNo scope st2 else st2
         | None \<Rightarrow> processStatementBlock line lineNo (currentScope st1) st1)"

fun scan_lines :: "nat \<Rightarrow> string list \<Rightarrow> scanner \<Rightarrow> scanner" where
  "scan_lines lineNo [] st = st"
| "scan_lines lineNo (raw # rest) st = scan_lines (lineNo + 1) rest (scan_line lineNo raw st)"

definition main_node :: node where
  "main_node = \<lparr>node_id = ''MAIN'', node_label = ''MAIN'', node_line = 1, node_kind = Entry\<rparr>"

text \<open>The state before the loop: the node \<open>MAIN\<close> is there, nothing else.\<close>

definition initial :: scanner where
  "initial = \<lparr>nodes = upsertNode [] ''MAIN'' ''MAIN'' 1 Entry, edges = [], edgeKeys = {},
              currentScope = ''MAIN'', inBlockComment = False\<rparr>"

definition scan :: "string \<Rightarrow> scanner" where
  "scan source = scan_lines 1 (split_lines [] source) initial"

text \<open>
  The comparator given to \<open>sort\<close>. \<open>localeCompare\<close> belongs to the host and depends on its
  locale: it is the parameter \<open>lc\<close>, whose sign is the order of two ids.
\<close>

definition node_compare :: "(string \<Rightarrow> string \<Rightarrow> int) \<Rightarrow> node \<Rightarrow> node \<Rightarrow> int" where
  "node_compare lc a b =
     (if node_id a = ''MAIN'' then - 1
      else if node_id b = ''MAIN'' then 1
      else if int (node_line a) - int (node_line b) \<noteq> 0
        then int (node_line a) - int (node_line b)
      else lc (node_id a) (node_id b))"

text \<open>
  \<open>Array.prototype.sort\<close> is stable; it is modelled by the stable insertion sort, which
  puts an element before the first one that the comparator does not rank below it.
\<close>

fun insert_by :: "('a \<Rightarrow> 'a \<Rightarrow> int) \<Rightarrow> 'a \<Rightarrow> 'a list \<Rightarrow> 'a list" where
  "insert_by cmp x [] = [x]"
| "insert_by cmp x (y # ys) = (if cmp x y \<le> 0 then x # y # ys else y # insert_by cmp x ys)"

definition sort_by :: "('a \<Rightarrow> 'a \<Rightarrow> int) \<Rightarrow> 'a list \<Rightarrow> 'a list" where
  "sort_by cmp xs = foldr (insert_by cmp) xs []"

definition parseRexxControlFlow :: "(string \<Rightarrow> string \<Rightarrow> int) \<Rightarrow> string \<Rightarrow> graph" where
  "parseRexxControlFlow lc source =
     \<lparr>nodes = sort_by (node_compare lc) (nodes (scan source)), edges = edges (scan source)\<rparr>"

text \<open>A comparator to run the parser with: the order of the code units.\<close>

definition codeUnitCompare :: "string \<Rightarrow> string \<Rightarrow> int" where
  "codeUnitCompare a b = (if a < b then - 1 else if a = b then 0 else 1)"

text \<open>
  \<open>localeCompare\<close> without a locale collates in the default locale of the host. Every id
  of a graph is made of characters of the class \<open>[A-Z0-9_.$!?@#]\<close>. On such strings the
  root collation of the Unicode Collation Algorithm, which the locales without a tailoring
  of these characters use, English among them, compares two ids character by character, a
  proper prefix first, with the characters in this order: underscore, exclamation mark,
  question mark, full stop, commercial at, number sign, dollar sign, the digits, the
  capital letters. \<open>localeCompare_root\<close> is that comparison. A character outside the
  class, which no id has, is ranked after the letters, by its code unit.
\<close>

definition collation_order :: string where
  "collation_order = ''_!?.@#$'' @ digits @ upper_letters"

text \<open>The index of the first occurrence of a character.\<close>

fun position :: "char \<Rightarrow> string \<Rightarrow> nat" where
  "position c [] = 0"
| "position c (x # xs) = (if c = x then 0 else Suc (position c xs))"

definition collation_rank :: "char \<Rightarrow> nat" where
  "collation_rank c =
     (if c \<in> set collation_order then position c collation_order
      else length collation_order + of_char c)"

fun localeCompare_root :: "string \<Rightarrow> string \<Rightarrow> int" where
  "localeCompare_root [] [] = 0"
| "localeCompare_root [] (y # ys) = - 1"
| "localeCompare_root (x # xs) [] = 1"
| "localeCompare_root (x # xs) (y # ys) =
     (if collation_rank x < collation_rank y then - 1
      else if collation_rank y < collation_rank x then 1
      else localeCompare_root xs ys)"

subsection \<open>toDot\<close>

text \<open>\<open>replace\<close> with a global pattern of one character.\<close>

definition replace_char :: "char \<Rightarrow> string \<Rightarrow> string \<Rightarrow> string" where
  "replace_char c r s = concat (map (\<lambda>x. if x = c then r else [x]) s)"

definition escapeDot :: "string \<Rightarrow> string" where
  "escapeDot v = replace_char (CHR 0x22) [CHR 0x5C, CHR 0x22]
                   (replace_char (CHR 0x5C) [CHR 0x5C, CHR 0x5C] v)"

fun join_with :: "string \<Rightarrow> string list \<Rightarrow> string" where
  "join_with sep [] = []"
| "join_with sep [x] = x"
| "join_with sep (x # y # ys) = x @ sep @ join_with sep (y # ys)"

definition node_decl :: "node \<Rightarrow> string" where
  "node_decl n = ''  '' @ [CHR 0x22] @ escapeDot (node_id n) @ [CHR 0x22] @ '' [label='' @
     [CHR 0x22] @ escapeDot (node_label n) @ [CHR 0x22] @ ''];''"

definition edge_decl :: "edge \<Rightarrow> string" where
  "edge_decl e = ''  '' @ [CHR 0x22] @ escapeDot (edge_from e) @ [CHR 0x22] @ '' -> '' @
     [CHR 0x22] @ escapeDot (edge_to e) @ [CHR 0x22] @ '' [label='' @
     [CHR 0x22] @ escapeDot (edge_type e) @ [CHR 0x22] @ ''];''"

definition toDot :: "graph \<Rightarrow> string" where
  "toDot g =
     (let out0 = [''digraph REXXControlFlow {'', ''  rankdir=LR;''];
          out1 = fold (\<lambda>n out. out @ [node_decl n]) (nodes g) out0;
          out2 = fold (\<lambda>e out. out @ [edge_decl e]) (edges g) out1
      in join_with [CHR 0x0A] (out2 @ [''}'']))"

subsection \<open>The call sites in scanning order\<close>

text \<open>
  The discovery order of the scan, written without the graph: the lines from top to
  bottom, in a line the statements from left to right, in a statement the matches from
  left to right. Only the comment flag and the scope go from one line to the next.
\<close>

text \<open>The edge that a match asks for; a match of \<open>ON\<close> or \<open>OFF\<close> asks for none.\<close>

definition site_edge :: "nat \<Rightarrow> string \<Rightarrow> string \<times> string option \<Rightarrow> edge list" where
  "site_edge lineNo scope m =
     (case m of (m1, m2) \<Rightarrow>
        if m1 = ''VALUE'' \<or> m1 = ''('' then
          [\<lparr>edge_from = scope, edge_to = ''DYNAMIC_CALL'', edge_type = ''calls-dynamic'',
            edge_line = lineNo\<rparr>]
        else
          let target = normalizeLabel (case m2 of Some t \<Rightarrow> t | None \<Rightarrow> ''undefined'')
          in if target = ''ON'' \<or> target = ''OFF'' then []
             else [\<lparr>edge_from = scope, edge_to = target, edge_type = ''calls'',
                    edge_line = lineNo\<rparr>])"

text \<open>The sites of a statement block: statement by statement, match by match.\<close>

definition block_sites :: "string \<Rightarrow> nat \<Rightarrow> string \<Rightarrow> edge list" where
  "block_sites text lineNo scope =
     concat (map (\<lambda>segment. concat (map (site_edge lineNo scope)
       (exec_loop None (toUpperCase segment)))) (splitStatements text))"

text \<open>
  The sites of a line, given the comment flag and the scope before it: those of the text
  after a label, under the scope of the label, or those of the whole line.
\<close>

definition line_sites :: "nat \<Rightarrow> string \<Rightarrow> bool \<Rightarrow> string \<Rightarrow> edge list" where
  "line_sites lineNo raw inBC scope =
     (let line = collapse (fst (stripComments raw inBC))
      in if line = [] then []
         else case label_match line of
           Some (label, rest) \<Rightarrow>
             if collapse rest \<noteq> [] then block_sites (collapse rest) lineNo (normalizeLabel label)
             else []
         | None \<Rightarrow> block_sites line lineNo scope)"

text \<open>The scope after a line: the label it declares, if any.\<close>

definition scope_after :: "string \<Rightarrow> bool \<Rightarrow> string \<Rightarrow> string" where
  "scope_after raw inBC scope =
     (case label_match (collapse (fst (stripComments raw inBC))) of
        Some (label, rest) \<Rightarrow> normalizeLabel label
      | None \<Rightarrow> scope)"

fun call_sites :: "nat \<Rightarrow> string list \<Rightarrow> bool \<Rightarrow> string \<Rightarrow> edge list" where
  "call_sites lineNo [] inBC scope = []"
| "call_sites lineNo (raw # rest) inBC scope =
     line_sites lineNo raw inBC scope @
     call_sites (lineNo + 1) rest (snd (stripComments raw inBC)) (scope_after raw inBC scope)"

text \<open>
  Recording sites one by one: a site whose triple of source, target and type is already in
  the list is dropped, any other is appended.
\<close>

definition same_triple :: "edge \<Rightarrow> edge \<Rightarrow> bool" where
  "same_triple a b \<longleftrightarrow>
     edge_from a = edge_from b \<and> edge_to a = edge_to b \<and> edge_type a = edge_type b"

fun record_first :: "edge list \<Rightarrow> edge list \<Rightarrow> edge list" where
  "record_first acc [] = acc"
| "record_first acc (e # es) =
     record_first (if list_ex (same_triple e) acc then acc else acc @ [e]) es"

subsection \<open>Notions used in the proofs\<close>

text \<open>The key that \<open>addEdge\<close> computes for a recorded edge.\<close>

definition edge_key_of :: "edge \<Rightarrow> string" where
  "edge_key_of e = edge_key (edge_from e) (edge_to e) (edge_type e)"

text \<open>
  The set of keys holds the keys of the recorded edges and nothing else, no key is
  recorded twice, and every id in an edge is made of characters of the call pattern's
  class, like the current scope.
\<close>

definition keys_agree :: "scanner \<Rightarrow> bool" where
  "keys_agree st \<longleftrightarrow>
     edgeKeys st = edge_key_of ` set (edges st) \<and>
     distinct (map edge_key_of (edges st)) \<and>
     list_all (\<lambda>e. list_all is_target_char (edge_from e) \<and> list_all is_target_char (edge_to e))
       (edges st) \<and>
     list_all is_target_char (currentScope st)"

text \<open>
  The ids of the node map are distinct, a node of kind dynamic has the id \<open>DYNAMIC_CALL\<close>,
  and an edge of type \<open>calls-dynamic\<close> ends there.
\<close>

definition dynamic_shared :: "scanner \<Rightarrow> bool" where
  "dynamic_shared st \<longleftrightarrow>
     distinct (map node_id (nodes st)) \<and>
     list_all (\<lambda>n. node_kind n = Dynamic \<longrightarrow> node_id n = ''DYNAMIC_CALL'') (nodes st) \<and>
     list_all (\<lambda>e. edge_type e = ''calls-dynamic'' \<longrightarrow> edge_to e = ''DYNAMIC_CALL'') (edges st)"

text \<open>The text has the closing marker of a block comment somewhere.\<close>

fun contains_close :: "string \<Rightarrow> bool" where
  "contains_close (c # d # cs) = ([c, d] = ''*/'' \<or> contains_close (d # cs))"
| "contains_close _ = False"

section \<open>Properties\<close>

subsection \<open>Character classes\<close>

lemma fold_invariant:
  assumes "P s" and "\<And>x s. x \<in> set xs \<Longrightarrow> P s \<Longrightarrow> P (f x s)"
  shows "P (fold f xs s)"
  using assms by (induction xs arbitrary: s) auto

lemma upper_char_label: "is_label_char c \<Longrightarrow> list_all is_target_char (upper_char c)"
proof -
  have "\<forall>c \<in> set (upper_letters @ lower_letters @ digits @ ''_.$!?@#'').
      list_all is_target_char (upper_char c)"
    by code_simp
  then show "is_label_char c \<Longrightarrow> list_all is_target_char (upper_char c)"
    unfolding is_label_char_def by blast
qed

lemma upper_char_nonempty: "upper_char c \<noteq> []"
  by (simp add: upper_char_def split: option.splits)

lemma upper_char_target: "is_target_char c \<Longrightarrow> upper_char c = [c]"
proof -
  have "\<forall>c \<in> set (upper_letters @ digits @ ''_.$!?@#''). upper_char c = [c]"
    by code_simp
  then show "is_target_char c \<Longrightarrow> upper_char c = [c]"
    unfolding is_target_char_def by blast
qed

lemma label_not_space: "is_label_char c \<Longrightarrow> \<not> is_space c"
proof -
  have "\<forall>c \<in> set (upper_letters @ lower_letters @ digits @ ''_.$!?@#''). \<not> is_space c"
    by code_simp
  then show "is_label_char c \<Longrightarrow> \<not> is_space c"
    unfolding is_label_char_def by blast
qed

lemma target_is_label: "is_target_char c \<Longrightarrow> is_label_char c"
  unfolding is_target_char_def is_label_char_def
  by auto

lemma target_not_space: "is_target_char c \<Longrightarrow> \<not> is_space c"
  by (simp add: target_is_label label_not_space)

lemma word_is_label: "is_word c \<Longrightarrow> is_label_char c"
  unfolding is_word_def is_label_char_def
  by auto

lemma upper_char_not_lower: "x \<in> set (upper_char c) \<Longrightarrow> x \<notin> set lower_letters"
proof (cases "c \<in> set (CHR 0xDF # lower_letters @ latin1_lower)")
  case True
  have "\<forall>c \<in> set (CHR 0xDF # lower_letters @ latin1_lower).
      \<forall>x \<in> set (upper_char c). x \<notin> set lower_letters"
    by code_simp
  with True show "x \<in> set (upper_char c) \<Longrightarrow> x \<notin> set lower_letters"
    by blast
next
  case False
  have "length (lower_letters @ latin1_lower) = length (upper_letters @ latin1_upper)"
    by code_simp
  then have "map_of (zip (lower_letters @ latin1_lower) (upper_letters @ latin1_upper)) c = None"
    using False by simp
  with False have "upper_char c = [c]"
    by (simp add: upper_char_def)
  with False show "x \<in> set (upper_char c) \<Longrightarrow> x \<notin> set lower_letters"
    by simp
qed

subsection \<open>Labels and matches\<close>

lemma dropWhile_none: "\<forall>x \<in> set xs. \<not> P x \<Longrightarrow> dropWhile P xs = xs"
  by (cases xs) auto

lemma trim_no_space: "\<forall>x \<in> set s. \<not> is_space x \<Longrightarrow> trim s = s"
  by (simp add: trim_def dropWhile_none)

lemma normalizeLabel_target:
  assumes "list_all is_target_char t"
  shows "normalizeLabel t = t"
proof -
  from assms have "trim t = t"
    by (intro trim_no_space) (auto simp: list_all_iff target_not_space)
  moreover from assms have "concat (map upper_char t) = t"
    by (induction t) (simp_all add: upper_char_target)
  ultimately show ?thesis
    by (simp add: normalizeLabel_def toUpperCase_def)
qed

lemma normalizeLabel_label:
  assumes "list_all is_label_char l"
  shows "normalizeLabel l = concat (map upper_char l)"
    and "list_all is_target_char (normalizeLabel l)"
proof -
  from assms have "trim l = l"
    by (intro trim_no_space) (auto simp: list_all_iff label_not_space)
  then show "normalizeLabel l = concat (map upper_char l)"
    by (simp add: normalizeLabel_def toUpperCase_def)
  moreover from assms have "list_all is_target_char (concat (map upper_char l))"
    by (induction l) (simp_all add: upper_char_label)
  ultimately show "list_all is_target_char (normalizeLabel l)"
    by simp
qed

lemma addEdge_fields [simp]:
  "nodes (addEdge st f t ty l) = nodes st"
  "currentScope (addEdge st f t ty l) = currentScope st"
  "inBlockComment (addEdge st f t ty l) = inBlockComment st"
  by (simp_all add: addEdge_def)

lemma call_at_shape:
  assumes "call_at prev s = Some (m1, m2, rest)"
  shows "m1 = ''VALUE'' \<or> m1 = ''('' \<or> (m2 = Some m1 \<and> m1 \<noteq> [] \<and> list_all is_target_char m1)"
proof -
  have tw: "list_all is_target_char (takeWhile is_target_char r)" for r
    by (auto simp: list_all_iff dest: set_takeWhileD)
  have ne: "takeWhile is_target_char (c # r) \<noteq> []" if "is_target_char c" for c r
    using that by simp
  have v: "is_target_char (CHR ''V'')"
    by code_simp
  have nv: "takeWhile is_target_char r \<noteq> []" if "strip_prefix ''VALUE'' r = Some r2" for r r2
    using that v by (cases r) (auto simp: strip_prefix_def split: if_splits)
  from assms show ?thesis
    by (auto simp: call_at_def Let_def tw ne nv split: option.splits if_splits list.splits)
qed

lemma exec_loop_shape:
  "(m1, m2) \<in> set (exec_loop prev s) \<Longrightarrow>
     m1 = ''VALUE'' \<or> m1 = ''('' \<or> (m2 = Some m1 \<and> m1 \<noteq> [] \<and> list_all is_target_char m1)"
proof (induction prev s rule: exec_loop.induct)
  case (1 prev)
  then show ?case by simp
next
  case (2 prev c cs)
  show ?case
  proof (cases "call_at prev (c # cs)")
    case None
    with 2 show ?thesis by simp
  next
    case (Some x)
    obtain a b r where x: "x = (a, b, r)"
      by (cases x) auto
    from 2(3) Some x have "(m1, m2) = (a, b) \<or> (m1, m2) \<in> set (exec_loop (Some (last a)) r)"
      by simp
    then show ?thesis
    proof
      assume "(m1, m2) = (a, b)"
      with Some x call_at_shape [of prev "c # cs" a b r] show ?thesis by simp
    next
      assume "(m1, m2) \<in> set (exec_loop (Some (last a)) r)"
      with "2.IH"(2) [OF Some, of a "(b, r)" b r] x show ?thesis
        by simp
    qed
  qed
qed

subsection \<open>Invariants of the scan\<close>

lemma process_match_currentScope [simp]:
  "currentScope (process_match n scope m st) = currentScope st"
  by (cases m) (simp add: process_match_def Let_def)

lemma process_match_invariant:
  assumes P: "P st" and sc: "scope = currentScope st"
    and m: "m \<in> set (exec_loop prev s)"
    and dyn: "\<And>st. P st \<Longrightarrow>
      P (addEdge (st\<lparr>nodes := upsertNode (nodes st) ''DYNAMIC_CALL'' ''DYNAMIC_CALL'' n Dynamic\<rparr>)
           (currentScope st) ''DYNAMIC_CALL'' ''calls-dynamic'' n)"
    and named: "\<And>st t. P st \<Longrightarrow> t \<noteq> [] \<Longrightarrow> list_all is_target_char t \<Longrightarrow>
      P (addEdge (st\<lparr>nodes := upsertNode (nodes st) t t n Function\<rparr>) (currentScope st) t ''calls'' n)"
  shows "P (process_match n scope m st)"
proof -
  obtain m1 m2 where mm: "m = (m1, m2)"
    by (cases m) auto
  from exec_loop_shape [of m1 m2 prev s] m mm
  consider "m1 = ''VALUE'' \<or> m1 = ''(''"
    | "m1 \<noteq> ''VALUE''" "m1 \<noteq> ''(''" "m2 = Some m1" "m1 \<noteq> []" "list_all is_target_char m1"
    by blast
  then show ?thesis
  proof cases
    case 1
    with dyn [OF P] sc mm show ?thesis
      by (auto simp: process_match_def)
  next
    case 2
    with named [OF P, of m1] P sc mm show ?thesis
      by (simp add: process_match_def normalizeLabel_target)
  qed
qed

lemma processStatementBlock_invariant:
  assumes P: "P st" and sc: "scope = currentScope st"
    and dyn: "\<And>st. P st \<Longrightarrow>
      P (addEdge (st\<lparr>nodes := upsertNode (nodes st) ''DYNAMIC_CALL'' ''DYNAMIC_CALL'' n Dynamic\<rparr>)
           (currentScope st) ''DYNAMIC_CALL'' ''calls-dynamic'' n)"
    and named: "\<And>st t. P st \<Longrightarrow> t \<noteq> [] \<Longrightarrow> list_all is_target_char t \<Longrightarrow>
      P (addEdge (st\<lparr>nodes := upsertNode (nodes st) t t n Function\<rparr>) (currentScope st) t ''calls'' n)"
  shows "P (processStatementBlock text n scope st) \<and>
         currentScope (processStatementBlock text n scope st) = scope"
proof -
  let ?Q = "\<lambda>st. P st \<and> currentScope st = scope"
  have seg: "?Q (process_segment n scope segment st)" if "?Q st" for segment st
    unfolding process_segment_def
  proof (rule fold_invariant [where P = ?Q])
    show "?Q st" by (rule that)
  next
    fix m st'
    assume "m \<in> set (exec_loop None (toUpperCase segment))" and "?Q st'"
    then show "?Q (process_match n scope m st')"
      using process_match_invariant [of P st' scope m None "toUpperCase segment" n] dyn named
      by simp
  qed
  have "?Q (fold (process_segment n scope) (splitStatements text) st)"
    by (rule fold_invariant [where P = ?Q]) (use P sc seg in auto)
  then show ?thesis
    by (simp add: processStatementBlock_def)
qed

lemma label_match_ident:
  assumes "label_match line = Some (label, rest)"
  shows "label \<noteq> []" and "list_all is_label_char label"
  using assms
  by (auto simp: label_match_def Let_def list_all_iff split: if_splits list.splits dest: set_takeWhileD)

lemma scan_line_invariant:
  assumes P: "P st"
    and bc: "\<And>st b. P st \<Longrightarrow> P (st\<lparr>inBlockComment := b\<rparr>)"
    and lab: "\<And>st scope. P st \<Longrightarrow> scope \<noteq> [] \<Longrightarrow> list_all is_target_char scope \<Longrightarrow>
      P (st\<lparr>currentScope := scope, nodes := upsertNode (nodes st) scope scope n Function\<rparr>)"
    and dyn: "\<And>st. P st \<Longrightarrow>
      P (addEdge (st\<lparr>nodes := upsertNode (nodes st) ''DYNAMIC_CALL'' ''DYNAMIC_CALL'' n Dynamic\<rparr>)
           (currentScope st) ''DYNAMIC_CALL'' ''calls-dynamic'' n)"
    and named: "\<And>st t. P st \<Longrightarrow> t \<noteq> [] \<Longrightarrow> list_all is_target_char t \<Longrightarrow>
      P (addEdge (st\<lparr>nodes := upsertNode (nodes st) t t n Function\<rparr>) (currentScope st) t ''calls'' n)"
  shows "P (scan_line n raw st)"
proof -
  define st1 where "st1 = st\<lparr>inBlockComment := snd (stripComments raw (inBlockComment st))\<rparr>"
  define line where "line = collapse (fst (stripComments raw (inBlockComment st)))"
  have P1: "P st1"
    unfolding st1_def by (rule bc [OF P])
  have psb: "P (processStatementBlock body n scope s)" if "P s" "scope = currentScope s" for body scope s
    using processStatementBlock_invariant [of P s scope n body] that dyn named by blast
  show ?thesis
  proof (cases "line = []")
    case True
    with P1 show ?thesis
      by (simp add: scan_line_def Let_def st1_def line_def)
  next
    case False
    show ?thesis
    proof (cases "label_match line")
      case None
      with False psb [OF P1 refl] show ?thesis
        by (simp add: scan_line_def Let_def st1_def line_def)
    next
      case (Some lr)
      obtain label rest where lr: "lr = (label, rest)"
        by (cases lr) auto
      define scope where "scope = normalizeLabel label"
      define st2 where
        "st2 = st1\<lparr>currentScope := scope, nodes := upsertNode (nodes st1) scope scope n Function\<rparr>"
      from label_match_ident [of line label rest] Some lr
      have "label \<noteq> []" and l: "list_all is_label_char label"
        by simp_all
      with normalizeLabel_label [OF l] have "scope \<noteq> []" "list_all is_target_char scope"
        by (cases label; simp add: scope_def upper_char_nonempty)+
      then have P2: "P st2"
        unfolding st2_def by (rule lab [OF P1])
      have "currentScope st2 = scope"
        by (simp add: st2_def)
      with psb [OF P2, of scope] have "P (processStatementBlock (collapse rest) n scope st2)"
        by simp
      with P2 False Some lr show ?thesis
        by (simp add: scan_line_def Let_def st1_def [symmetric] line_def [symmetric]
            scope_def [symmetric] st2_def [symmetric])
    qed
  qed
qed

lemma scan_lines_invariant:
  assumes P: "P n st"
    and mono: "\<And>n st. P n st \<Longrightarrow> P (Suc n) st"
    and bc: "\<And>n st b. P n st \<Longrightarrow> P n (st\<lparr>inBlockComment := b\<rparr>)"
    and lab: "\<And>n st scope. P n st \<Longrightarrow> scope \<noteq> [] \<Longrightarrow> list_all is_target_char scope \<Longrightarrow>
      P n (st\<lparr>currentScope := scope, nodes := upsertNode (nodes st) scope scope n Function\<rparr>)"
    and dyn: "\<And>n st. P n st \<Longrightarrow>
      P n (addEdge (st\<lparr>nodes := upsertNode (nodes st) ''DYNAMIC_CALL'' ''DYNAMIC_CALL'' n Dynamic\<rparr>)
           (currentScope st) ''DYNAMIC_CALL'' ''calls-dynamic'' n)"
    and named: "\<And>n st t. P n st \<Longrightarrow> t \<noteq> [] \<Longrightarrow> list_all is_target_char t \<Longrightarrow>
      P n (addEdge (st\<lparr>nodes := upsertNode (nodes st) t t n Function\<rparr>) (currentScope st) t ''calls'' n)"
  shows "P (n + length ls) (scan_lines n ls st)"
  using P
proof (induction ls arbitrary: n st)
  case Nil
  then show ?case by simp
next
  case (Cons raw ls)
  have "P n (scan_line n raw st)"
    by (rule scan_line_invariant [where P = "P n"]) (use Cons.prems bc lab dyn named in auto)
  then have "P (Suc n) (scan_line n raw st)"
    by (rule mono)
  from Cons.IH [OF this] show ?case
    by simp
qed

subsection \<open>Sorting and the node map\<close>

lemma mset_insert_by [simp]: "mset (insert_by cmp x xs) = add_mset x (mset xs)"
  by (induction xs) auto

lemma mset_sort_by [simp]: "mset (sort_by cmp xs) = mset xs"
  unfolding sort_by_def by (induction xs) auto

lemma set_sort_by [simp]: "set (sort_by cmp xs) = set xs"
  using mset_sort_by [of cmp xs] by (metis set_mset_mset)

lemma filter_sort_by_single:
  assumes "filter P xs = [x]"
  shows "filter P (sort_by cmp xs) = [x]"
proof -
  have "mset (filter P (sort_by cmp xs)) = mset (filter P xs)"
    by simp
  also have "\<dots> = {#x#}"
    unfolding assms by simp
  finally show ?thesis
    by (simp only: mset_single_iff)
qed

lemma upsertNode_ids:
  "map node_id (upsertNode ns i l ln k) =
     (if i \<in> set (map node_id ns) then map node_id ns else map node_id ns @ [i])"
  by (induction ns) auto

lemma upsertNode_distinct:
  "distinct (map node_id ns) \<Longrightarrow> distinct (map node_id (upsertNode ns i l ln k))"
  by (simp add: upsertNode_ids)

lemma upsertNode_filter_other:
  "i \<noteq> j \<Longrightarrow> filter (\<lambda>x. node_id x = j) (upsertNode ns i l ln k) = filter (\<lambda>x. node_id x = j) ns"
  by (induction ns) auto

lemma upsertNode_filter_main:
  assumes "1 \<le> ln" and "filter (\<lambda>x. node_id x = ''MAIN'') ns = [main_node]"
  shows "filter (\<lambda>x. node_id x = ''MAIN'') (upsertNode ns i l ln k) = [main_node]"
proof (cases "i = ''MAIN''")
  case False
  with assms(2) show ?thesis
    by (simp add: upsertNode_filter_other)
next
  case True
  from assms show ?thesis
    unfolding True
  proof (induction ns)
    case Nil
    then show ?case by simp
  next
    case (Cons n ns)
    show ?case
    proof (cases "node_id n = ''MAIN''")
      case True
      with Cons.prems have "n = main_node"
        by simp
      with Cons.prems show ?thesis
        by (simp add: main_node_def)
    next
      case False
      with Cons show ?thesis
        by simp
    qed
  qed
qed

lemma scan_main_node:
  "filter (\<lambda>x. node_id x = ''MAIN'') (nodes (scan source)) = [main_node]"
proof -
  let ?P = "\<lambda>(n::nat) st. 1 \<le> n \<and> filter (\<lambda>x. node_id x = ''MAIN'') (nodes st) = [main_node]"
  have "?P (1 + length (split_lines [] source)) (scan_lines 1 (split_lines [] source) initial)"
  proof (rule scan_lines_invariant [where P = ?P])
    show "?P 1 initial"
      by (simp add: initial_def main_node_def)
  qed (simp_all add: upsertNode_filter_main)
  then show ?thesis
    by (simp add: scan_def)
qed

text \<open>
  C1. For every source, the graph has exactly one node with id \<open>MAIN\<close>: it is the
  entry node at line 1, whatever the source declares or calls later; for the empty source
  the graph is this node alone, with no edge. A label \<open>MAIN:\<close> and a call of \<open>MAIN\<close> on
  the second line leave the node as it is.
\<close>

theorem main_entry_node_unique:
  "filter (\<lambda>x. node_id x = ''MAIN'') (nodes (parseRexxControlFlow lc source)) =
     [\<lparr>node_id = ''MAIN'', node_label = ''MAIN'', node_line = 1, node_kind = Entry\<rparr>]
   \<and> parseRexxControlFlow lc [] =
     \<lparr>nodes = [\<lparr>node_id = ''MAIN'', node_label = ''MAIN'', node_line = 1, node_kind = Entry\<rparr>],
      edges = []\<rparr>
   \<and> parseRexxControlFlow lc ''CALL X\<newline>MAIN: CALL MAIN'' =
     \<lparr>nodes = [\<lparr>node_id = ''MAIN'', node_label = ''MAIN'', node_line = 1, node_kind = Entry\<rparr>,
        \<lparr>node_id = ''X'', node_label = ''X'', node_line = 1, node_kind = Function\<rparr>],
      edges = [\<lparr>edge_from = ''MAIN'', edge_to = ''X'', edge_type = ''calls'', edge_line = 1\<rparr>,
        \<lparr>edge_from = ''MAIN'', edge_to = ''MAIN'', edge_type = ''calls'', edge_line = 2\<rparr>]\<rparr>"
proof (intro conjI)
  show "filter (\<lambda>x. node_id x = ''MAIN'') (nodes (parseRexxControlFlow lc source)) =
     [\<lparr>node_id = ''MAIN'', node_label = ''MAIN'', node_line = 1, node_kind = Entry\<rparr>]"
    using filter_sort_by_single [OF scan_main_node, of "node_compare lc" source]
    by (simp add: parseRexxControlFlow_def main_node_def)
next
  show "parseRexxControlFlow lc [] =
     \<lparr>nodes = [\<lparr>node_id = ''MAIN'', node_label = ''MAIN'', node_line = 1, node_kind = Entry\<rparr>],
      edges = []\<rparr>"
    by code_simp
next
  show "parseRexxControlFlow lc ''CALL X\<newline>MAIN: CALL MAIN'' =
     \<lparr>nodes = [\<lparr>node_id = ''MAIN'', node_label = ''MAIN'', node_line = 1, node_kind = Entry\<rparr>,
        \<lparr>node_id = ''X'', node_label = ''X'', node_line = 1, node_kind = Function\<rparr>],
      edges = [\<lparr>edge_from = ''MAIN'', edge_to = ''X'', edge_type = ''calls'', edge_line = 1\<rparr>,
        \<lparr>edge_from = ''MAIN'', edge_to = ''MAIN'', edge_type = ''calls'', edge_line = 2\<rparr>]\<rparr>"
    by code_simp
qed

subsection \<open>Edge keys\<close>

lemma target_not_separator: "is_target_char c \<Longrightarrow> c \<noteq> CHR ''-'' \<and> c \<noteq> CHR '':''"
proof -
  have "\<forall>c \<in> set (upper_letters @ digits @ ''_.$!?@#''). c \<noteq> CHR ''-'' \<and> c \<noteq> CHR '':''"
    by code_simp
  then show "is_target_char c \<Longrightarrow> c \<noteq> CHR ''-'' \<and> c \<noteq> CHR '':''"
    unfolding is_target_char_def by blast
qed

lemma append_Cons_unique:
  "x \<notin> set xs \<Longrightarrow> x \<notin> set xs' \<Longrightarrow> xs @ x # ys = xs' @ x # ys' \<Longrightarrow> xs = xs' \<and> ys = ys'"
proof (induction xs arbitrary: xs')
  case Nil
  then show ?case by (cases xs') auto
next
  case (Cons a xs)
  then show ?case by (cases xs') auto
qed

lemma edge_key_inject:
  assumes "list_all is_target_char f" and "list_all is_target_char f'"
    and "list_all is_target_char t" and "list_all is_target_char t'"
    and eq: "edge_key f t ty = edge_key f' t' ty'"
  shows "f = f' \<and> t = t' \<and> ty = ty'"
proof -
  from assms(1,2) have "CHR ''-'' \<notin> set f" "CHR ''-'' \<notin> set f'"
    by (auto simp: list_all_iff dest: target_not_separator)
  moreover from eq have "f @ CHR ''-'' # (''>'' @ t @ '':'' @ ty) = f' @ CHR ''-'' # (''>'' @ t' @ '':'' @ ty')"
    by (simp add: edge_key_def)
  ultimately have "f = f' \<and> ''>'' @ t @ '':'' @ ty = ''>'' @ t' @ '':'' @ ty'"
    by (rule append_Cons_unique)
  then have f: "f = f'" and r: "t @ CHR '':'' # ty = t' @ CHR '':'' # ty'"
    by simp_all
  from assms(3,4) have "CHR '':'' \<notin> set t" "CHR '':'' \<notin> set t'"
    by (auto simp: list_all_iff dest: target_not_separator)
  from this r have "t = t' \<and> ty = ty'"
    by (rule append_Cons_unique)
  with f show ?thesis by simp
qed

lemma distinct_map_of_key:
  "distinct (map (\<lambda>x. f (g x)) xs) \<Longrightarrow> distinct (map g xs)"
  by (induction xs) auto

lemma target_MAIN: "list_all is_target_char ''MAIN''"
  by code_simp

lemma target_DYNAMIC_CALL: "list_all is_target_char ''DYNAMIC_CALL''"
  by code_simp

lemma addEdge_idem:
  "addEdge (addEdge st f t ty l1) f t ty l2 = addEdge st f t ty l1"
  by (simp add: addEdge_def)

lemma keys_agree_addEdge:
  assumes "keys_agree st" and "list_all is_target_char t"
  shows "keys_agree (addEdge (st\<lparr>nodes := ns\<rparr>) (currentScope st) t ty l)"
  using assms by (auto simp: keys_agree_def addEdge_def edge_key_of_def)

lemma scan_keys_agree: "keys_agree (scan source)"
proof -
  have "keys_agree (scan_lines 1 (split_lines [] source) initial)"
  proof (rule scan_lines_invariant [where P = "\<lambda>n. keys_agree"])
    show "keys_agree initial"
      using target_MAIN by (simp add: initial_def keys_agree_def)
  next
    fix n and st :: scanner
    assume "keys_agree st"
    then show "keys_agree (addEdge (st\<lparr>nodes := upsertNode (nodes st) ''DYNAMIC_CALL''
        ''DYNAMIC_CALL'' n Dynamic\<rparr>) (currentScope st) ''DYNAMIC_CALL'' ''calls-dynamic'' n)"
      using target_DYNAMIC_CALL by (rule keys_agree_addEdge)
  next
    fix n and st :: scanner and t
    assume "keys_agree st" and "list_all is_target_char t"
    then show "keys_agree (addEdge (st\<lparr>nodes := upsertNode (nodes st) t t n Function\<rparr>)
        (currentScope st) t ''calls'' n)"
      by (rule keys_agree_addEdge)
  qed (simp_all add: keys_agree_def)
  then show ?thesis
    by (simp add: scan_def)
qed

text \<open>
  C2. An edge is identified by its triple of source, target and type: the edge list of
  every graph has no two edges with the same triple; adding again the triple of a recorded
  edge, at any line, leaves the whole state as it is, so the first line stays; the key
  test of \<open>addEdge\<close> holds exactly for the recorded triples, for ids the scanner can produce;
  and the source \<open>CALL A; CALL A; CALL A\<close> gives the single edge from \<open>MAIN\<close> to \<open>A\<close>.
\<close>

theorem edge_identity_is_the_triple:
  "distinct (map (\<lambda>e. (edge_from e, edge_to e, edge_type e))
      (edges (parseRexxControlFlow lc source)))
   \<and> (\<forall>e \<in> set (edges (scan source)).
        addEdge (scan source) (edge_from e) (edge_to e) (edge_type e) ln = scan source)
   \<and> addEdge (addEdge st f t ty l1) f t ty l2 = addEdge st f t ty l1
   \<and> (list_all is_target_char f' \<and> list_all is_target_char t' \<longrightarrow>
        (edge_key f' t' ty' \<in> edgeKeys (scan source)) =
        ((f', t', ty') \<in> (\<lambda>e. (edge_from e, edge_to e, edge_type e)) ` set (edges (scan source))))
   \<and> edges (parseRexxControlFlow lc ''CALL A; CALL A; CALL A'') =
        [\<lparr>edge_from = ''MAIN'', edge_to = ''A'', edge_type = ''calls'', edge_line = 1\<rparr>]"
proof (intro conjI impI ballI)
  note ka = scan_keys_agree [of source, unfolded keys_agree_def]
  have "distinct (map (\<lambda>e. (\<lambda>(a, b, c). edge_key a b c) (edge_from e, edge_to e, edge_type e))
      (edges (scan source)))"
    using ka by (simp add: edge_key_of_def [abs_def])
  then have "distinct (map (\<lambda>e. (edge_from e, edge_to e, edge_type e)) (edges (scan source)))"
    by (rule distinct_map_of_key)
  then show "distinct (map (\<lambda>e. (edge_from e, edge_to e, edge_type e))
      (edges (parseRexxControlFlow lc source)))"
    by (simp add: parseRexxControlFlow_def)
next
  fix e
  assume "e \<in> set (edges (scan source))"
  with scan_keys_agree [of source]
  have "edge_key (edge_from e) (edge_to e) (edge_type e) \<in> edgeKeys (scan source)"
    by (auto simp: keys_agree_def edge_key_of_def)
  then show "addEdge (scan source) (edge_from e) (edge_to e) (edge_type e) ln = scan source"
    by (simp add: addEdge_def)
next
  show "addEdge (addEdge st f t ty l1) f t ty l2 = addEdge st f t ty l1"
    by (simp add: addEdge_def)
next
  assume v: "list_all is_target_char f' \<and> list_all is_target_char t'"
  note ka = scan_keys_agree [of source, unfolded keys_agree_def]
  show "(edge_key f' t' ty' \<in> edgeKeys (scan source)) =
        ((f', t', ty') \<in> (\<lambda>e. (edge_from e, edge_to e, edge_type e)) ` set (edges (scan source)))"
  proof
    assume "edge_key f' t' ty' \<in> edgeKeys (scan source)"
    with ka obtain e where e: "e \<in> set (edges (scan source))"
      and k: "edge_key f' t' ty' = edge_key (edge_from e) (edge_to e) (edge_type e)"
      by (auto simp: edge_key_of_def)
    from ka e have "list_all is_target_char (edge_from e)" "list_all is_target_char (edge_to e)"
      by (auto simp: list_all_iff)
    with v k have "f' = edge_from e \<and> t' = edge_to e \<and> ty' = edge_type e"
      by (intro edge_key_inject) auto
    with e show "(f', t', ty') \<in> (\<lambda>e. (edge_from e, edge_to e, edge_type e)) ` set (edges (scan source))"
      by force
  next
    assume "(f', t', ty') \<in> (\<lambda>e. (edge_from e, edge_to e, edge_type e)) ` set (edges (scan source))"
    with ka show "edge_key f' t' ty' \<in> edgeKeys (scan source)"
      by (auto simp: edge_key_of_def)
  qed
next
  show "edges (parseRexxControlFlow lc ''CALL A; CALL A; CALL A'') =
        [\<lparr>edge_from = ''MAIN'', edge_to = ''A'', edge_type = ''calls'', edge_line = 1\<rparr>]"
    by code_simp
qed

theorem edge_identity_witness:
  "addEdge (scan ''CALL A'') ''MAIN'' ''A'' ''calls'' 5 = scan ''CALL A''
   \<and> edge_key ''MAIN'' ''B'' ''calls'' \<notin> edgeKeys (scan ''CALL A'')"
proof -
  have e: "edges (scan ''CALL A'') =
      [\<lparr>edge_from = ''MAIN'', edge_to = ''A'', edge_type = ''calls'', edge_line = 1\<rparr>]"
    by code_simp
  have v: "list_all is_target_char ''MAIN'' \<and> list_all is_target_char ''B''"
    by code_simp
  from edge_identity_is_the_triple [where source = "''CALL A''" and ln = 5
      and f' = "''MAIN''" and t' = "''B''" and ty' = "''calls''"] e v
  show ?thesis
    by simp
qed

subsection \<open>Collapsed lines and the label pattern\<close>









lemma processStatementBlock_currentScope:
  "currentScope (processStatementBlock body n (currentScope st) st) = currentScope st"
  using processStatementBlock_invariant [of "\<lambda>_. True" st "currentScope st" n body]
  by simp



subsection \<open>Statements\<close>

lemma dropWhile_keeps: "c \<in> set s \<Longrightarrow> \<not> P c \<Longrightarrow> c \<in> set (dropWhile P s)"
  by (induction s) auto

lemma trim_keeps: "c \<in> set s \<Longrightarrow> \<not> is_space c \<Longrightarrow> c \<in> set (trim s)"
  by (simp add: trim_def dropWhile_keeps)

lemma replace_ws_runs_keeps: "c \<in> set s \<Longrightarrow> \<not> is_space c \<Longrightarrow> c \<in> set (replace_ws_runs s)"
proof (induction s rule: replace_ws_runs.induct)
  case 1
  then show ?case by simp
next
  case (2 d ds)
  show ?case
  proof (cases "is_space d")
    case True
    with 2 have "c \<in> set ds" by auto
    with 2 True have "c \<in> set (replace_ws_runs (dropWhile is_space ds))"
      by (simp add: dropWhile_keeps)
    with True show ?thesis by simp
  next
    case False
    with 2 show ?thesis by auto
  qed
qed

lemma collapse_nonempty: "c \<in> set s \<Longrightarrow> \<not> is_space c \<Longrightarrow> collapse s \<noteq> []"
  using trim_keeps [of c "replace_ws_runs s"] replace_ws_runs_keeps [of c s]
  by (auto simp: collapse_def)

lemma splitStatements_loop_nonempty:
  "[] \<notin> set out \<Longrightarrow> [] \<notin> set (splitStatements_loop s current quote out)"
  by (induction s current quote out rule: splitStatements_loop.induct) (auto simp: Let_def)

lemma splitStatements_loop_literal:
  "q \<notin> set body \<Longrightarrow>
     splitStatements_loop (body @ rest) current (Some q) out =
     splitStatements_loop rest (current @ body) (Some q) out"
  by (induction body arbitrary: current) auto

lemma quote_not_space: "\<not> is_space (CHR 0x27)" "\<not> is_space (CHR 0x22)"
  by code_simp+

text \<open>
  C4. \<open>splitStatements\<close> never returns an empty statement. From outside a literal, a
  quote character, single or double, followed by text without that character and by the
  same character again is taken into the current statement as it is, semicolons and the
  other quote character included, and the scan goes on outside a literal; a literal that
  the line leaves open runs to the end of the line and ends the last statement. The
  source \<open>CALL A; SAY 'x;y'; CALL B\<close> has three statements and gives the two edges from
  \<open>MAIN\<close> to \<open>A\<close> and from \<open>MAIN\<close> to \<open>B\<close>.
\<close>

theorem split_is_quote_aware:
  "[] \<notin> set (splitStatements s)
   \<and> ((q = CHR 0x27 \<or> q = CHR 0x22) \<and> q \<notin> set body \<longrightarrow>
        splitStatements_loop (q # body @ q # post) current None out =
        splitStatements_loop post (current @ q # body @ [q]) None out)
   \<and> ((q = CHR 0x27 \<or> q = CHR 0x22) \<and> q \<notin> set body \<longrightarrow>
        splitStatements_loop (q # body) current None out = out @ [collapse (current @ q # body)])
   \<and> splitStatements ''CALL A; SAY 'x;y'; CALL B'' = [''CALL A'', ''SAY 'x;y'' @ [CHR 0x27], ''CALL B'']
   \<and> edges (parseRexxControlFlow lc ''CALL A; SAY 'x;y'; CALL B'') =
        [\<lparr>edge_from = ''MAIN'', edge_to = ''A'', edge_type = ''calls'', edge_line = 1\<rparr>,
         \<lparr>edge_from = ''MAIN'', edge_to = ''B'', edge_type = ''calls'', edge_line = 1\<rparr>]"
proof (intro conjI impI)
  show "[] \<notin> set (splitStatements s)"
    by (simp add: splitStatements_def splitStatements_loop_nonempty)
next
  assume a: "(q = CHR 0x27 \<or> q = CHR 0x22) \<and> q \<notin> set body"
  then have "splitStatements_loop (q # body @ q # post) current None out =
      splitStatements_loop (body @ q # post) (current @ [q]) (Some q) out"
    by auto
  also from a have "\<dots> = splitStatements_loop (q # post) ((current @ [q]) @ body) (Some q) out"
    by (intro splitStatements_loop_literal) simp
  also have "\<dots> = splitStatements_loop post (current @ q # body @ [q]) None out"
    by simp
  finally show "splitStatements_loop (q # body @ q # post) current None out =
        splitStatements_loop post (current @ q # body @ [q]) None out" .
next
  assume a: "(q = CHR 0x27 \<or> q = CHR 0x22) \<and> q \<notin> set body"
  then have "splitStatements_loop (q # body) current None out =
      splitStatements_loop (body @ []) (current @ [q]) (Some q) out"
    by auto
  also from a have "\<dots> = splitStatements_loop [] ((current @ [q]) @ body) (Some q) out"
    by (intro splitStatements_loop_literal) simp
  also have "\<dots> = out @ [collapse (current @ q # body)]"
    using a collapse_nonempty [of q "current @ q # body"] quote_not_space
    by (auto simp: Let_def)
  finally show "splitStatements_loop (q # body) current None out =
      out @ [collapse (current @ q # body)]" .
next
  show "splitStatements ''CALL A; SAY 'x;y'; CALL B'' = [''CALL A'', ''SAY 'x;y'' @ [CHR 0x27], ''CALL B'']"
    by code_simp
next
  show "edges (parseRexxControlFlow lc ''CALL A; SAY 'x;y'; CALL B'') =
        [\<lparr>edge_from = ''MAIN'', edge_to = ''A'', edge_type = ''calls'', edge_line = 1\<rparr>,
         \<lparr>edge_from = ''MAIN'', edge_to = ''B'', edge_type = ''calls'', edge_line = 1\<rparr>]"
    by code_simp
qed

theorem split_is_quote_aware_witness:
  \<open>splitStatements_loop (CHR 0x27 # ''x;"y'' @ CHR 0x27 # ''; CALL B'') ''SAY '' None [''CALL A''] =
     [''CALL A'', ''SAY 'x;"y'' @ [CHR 0x27], ''CALL B'']
   \<and> splitStatements_loop (CHR 0x22 # ''x;y; CALL B'') ''SAY '' None [''CALL A''] =
     [''CALL A'', ''SAY "x;y; CALL B'']\<close>
proof -
  have h1: \<open>(CHR 0x27 = CHR 0x27 \<or> CHR 0x27 = CHR 0x22) \<and> CHR 0x27 \<notin> set ''x;"y''\<close>
    and h2: \<open>(CHR 0x22 = CHR 0x27 \<or> CHR 0x22 = CHR 0x22) \<and> CHR 0x22 \<notin> set ''x;y; CALL B''\<close>
    by simp_all
  have r1: \<open>splitStatements_loop ''; CALL B'' (''SAY '' @ CHR 0x27 # ''x;"y'' @ [CHR 0x27]) None
      [''CALL A''] = [''CALL A'', ''SAY 'x;"y'' @ [CHR 0x27], ''CALL B'']\<close>
    and r2: \<open>[''CALL A''] @ [collapse (''SAY '' @ CHR 0x22 # ''x;y; CALL B'')] =
      [''CALL A'', ''SAY "x;y; CALL B'']\<close>
    by code_simp+
  note t = split_is_quote_aware [where post = "''; CALL B''" and current = "''SAY ''"
      and out = "[''CALL A'']"]
  from t [where q = "CHR 0x27" and body = \<open>''x;"y''\<close>, THEN conjunct2, THEN conjunct1,
      rule_format, OF h1]
    t [where q = "CHR 0x22" and body = "''x;y; CALL B''", THEN conjunct2, THEN conjunct2,
      THEN conjunct1, rule_format, OF h2]
  show ?thesis
    unfolding r1 r2 by (rule conjI)
qed

subsection \<open>The call pattern at one position\<close>

lemma space_not_word: "is_space c \<Longrightarrow> \<not> is_word c"
  using word_is_label label_not_space by blast

lemma strip_prefix_append [simp]: "strip_prefix p (p @ r) = Some r"
  by (simp add: strip_prefix_def)

lemma dropWhile_spaces:
  assumes "list_all is_space ws" and "case r of [] \<Rightarrow> True | c # _ \<Rightarrow> \<not> is_space c"
  shows "dropWhile is_space (ws @ r) = r"
  using assms by (cases r) (simp_all add: list_all_iff)

lemma paren_class: "\<not> is_word (CHR ''('')" "\<not> is_space (CHR ''('')" "\<not> is_target_char (CHR ''('')"
  by code_simp+

lemma V_class: "is_word (CHR ''V'')" "\<not> is_space (CHR ''V'')" "is_target_char (CHR ''V'')"
  by code_simp+

lemma call_at_keyword:
  assumes "case prev of None \<Rightarrow> True | Some p \<Rightarrow> \<not> is_word p"
    and "list_all is_space ws"
    and "ws = [] \<longrightarrow> \<not> starts_word r"
    and "case r of [] \<Rightarrow> True | c # _ \<Rightarrow> \<not> is_space c"
  shows "call_at prev (''CALL'' @ ws @ r) =
    (case strip_prefix ''VALUE'' r of
       Some r2 \<Rightarrow>
         if \<not> starts_word r2 then Some (''VALUE'', None, r2)
         else Some (takeWhile is_target_char r, Some (takeWhile is_target_char r),
                    dropWhile is_target_char r)
     | None \<Rightarrow>
         (case r of
            [] \<Rightarrow> None
          | c # r2 \<Rightarrow>
              if c = CHR ''('' then Some (''('', None, r2)
              else if is_target_char c then
                Some (takeWhile is_target_char r, Some (takeWhile is_target_char r),
                      dropWhile is_target_char r)
              else None))"
proof -
  from assms(1) have p: "\<not> (case prev of None \<Rightarrow> False | Some p \<Rightarrow> is_word p)"
    by (cases prev) simp_all
  from assms(2,3) have b: "\<not> starts_word (ws @ r)"
    by (cases ws) (simp_all add: starts_word_def space_not_word)
  have sp: "strip_prefix ''CALL'' (''CALL'' @ ws @ r) = Some (ws @ r)"
    by (rule strip_prefix_append)
  show ?thesis
    unfolding call_at_def sp using p b
    by (simp add: dropWhile_spaces [OF assms(2,4)] Let_def)
qed

lemma takeWhile_token:
  assumes "list_all is_target_char tok" and "case r of [] \<Rightarrow> True | c # _ \<Rightarrow> \<not> is_target_char c"
  shows "takeWhile is_target_char (tok @ r) = tok" and "dropWhile is_target_char (tok @ r) = r"
  using assms by (cases r; simp add: list_all_iff)+

subsection \<open>The shared dynamic node\<close>

lemma upsertNode_dynamic:
  assumes "list_all (\<lambda>n. node_kind n = Dynamic \<longrightarrow> node_id n = ''DYNAMIC_CALL'') ns"
    and "k = Dynamic \<longrightarrow> i = ''DYNAMIC_CALL''"
  shows "list_all (\<lambda>n. node_kind n = Dynamic \<longrightarrow> node_id n = ''DYNAMIC_CALL'')
    (upsertNode ns i l ln k)"
  using assms by (induction ns) auto

lemma dynamic_shared_step:
  assumes "dynamic_shared st" and "k = Dynamic \<longrightarrow> i = ''DYNAMIC_CALL''"
    and "ty = ''calls-dynamic'' \<longrightarrow> i = ''DYNAMIC_CALL''"
  shows "dynamic_shared (addEdge (st\<lparr>nodes := upsertNode (nodes st) i i ln k\<rparr>) f i ty ln)"
  using assms
  by (auto simp: dynamic_shared_def addEdge_def upsertNode_distinct upsertNode_dynamic)

lemma scan_dynamic_shared: "dynamic_shared (scan source)"
proof -
  have "dynamic_shared (scan_lines 1 (split_lines [] source) initial)"
  proof (rule scan_lines_invariant [where P = "\<lambda>n. dynamic_shared"])
    show "dynamic_shared initial"
      by (simp add: initial_def dynamic_shared_def)
  next
    fix n and st :: scanner
    assume "dynamic_shared st"
    then show "dynamic_shared (addEdge (st\<lparr>nodes := upsertNode (nodes st) ''DYNAMIC_CALL''
        ''DYNAMIC_CALL'' n Dynamic\<rparr>) (currentScope st) ''DYNAMIC_CALL'' ''calls-dynamic'' n)"
      by (rule dynamic_shared_step) simp_all
  next
    fix n and st :: scanner and t
    assume "dynamic_shared st"
    then show "dynamic_shared (addEdge (st\<lparr>nodes := upsertNode (nodes st) t t n Function\<rparr>)
        (currentScope st) t ''calls'' n)"
      by (rule dynamic_shared_step) simp_all
  next
    fix n and st :: scanner and scope
    assume "dynamic_shared st"
    then show "dynamic_shared
        (st\<lparr>currentScope := scope, nodes := upsertNode (nodes st) scope scope n Function\<rparr>)"
      by (simp add: dynamic_shared_def upsertNode_distinct upsertNode_dynamic)
  qed (simp_all add: dynamic_shared_def)
  then show ?thesis
    by (simp add: scan_def)
qed

lemma same_id_at_most_one:
  assumes "distinct (map f xs)" and "set (map f xs) \<subseteq> {a}"
  shows "length xs \<le> 1"
proof -
  have "length xs = length (map f xs)"
    by simp
  also have "\<dots> = card (set (map f xs))"
    using assms(1) by (simp only: distinct_card)
  also have "\<dots> \<le> card {a}"
    using assms(2) by (intro card_mono) simp_all
  finally show ?thesis by simp
qed

lemma dynamic_nodes_shared:
  "set (map node_id (filter (\<lambda>n. node_kind n = Dynamic) (nodes (parseRexxControlFlow lc source))))
     \<subseteq> {''DYNAMIC_CALL''}"
  "length (filter (\<lambda>n. node_kind n = Dynamic) (nodes (parseRexxControlFlow lc source))) \<le> 1"
  "set (map edge_to (filter (\<lambda>e. edge_type e = ''calls-dynamic'')
     (edges (parseRexxControlFlow lc source)))) \<subseteq> {''DYNAMIC_CALL''}"
proof -
  note d = scan_dynamic_shared [of source, unfolded dynamic_shared_def]
  let ?ns = "nodes (parseRexxControlFlow lc source)"
  from d show sub: "set (map node_id (filter (\<lambda>n. node_kind n = Dynamic) ?ns)) \<subseteq> {''DYNAMIC_CALL''}"
    by (auto simp: parseRexxControlFlow_def list_all_iff)
  have "mset (map node_id ?ns) = mset (map node_id (nodes (scan source)))"
    by (simp add: parseRexxControlFlow_def)
  with d have "distinct (map node_id ?ns)"
    by (metis mset_eq_imp_distinct_iff)
  then have "distinct (map node_id (filter (\<lambda>n. node_kind n = Dynamic) ?ns))"
    by (rule distinct_map_filter)
  from this sub show "length (filter (\<lambda>n. node_kind n = Dynamic) ?ns) \<le> 1"
    by (rule same_id_at_most_one)
  from d show "set (map edge_to (filter (\<lambda>e. edge_type e = ''calls-dynamic'')
     (edges (parseRexxControlFlow lc source)))) \<subseteq> {''DYNAMIC_CALL''}"
    by (auto simp: parseRexxControlFlow_def list_all_iff)
qed

subsection \<open>Matches in uppercased text\<close>

lemma strip_prefix_Some:
  assumes "strip_prefix p s = Some r"
  shows "s = p @ r"
proof -
  from assms have t: "take (length p) s = p" and r: "r = drop (length p) s"
    by (auto simp: strip_prefix_def split: if_splits)
  have "s = take (length p) s @ drop (length p) s"
    by simp
  then show ?thesis
    unfolding r [symmetric] t .
qed

lemma takeWhile_not_VALUE:
  assumes "strip_prefix ''VALUE'' r = None"
  shows "takeWhile is_target_char r \<noteq> ''VALUE''"
proof
  assume eq: "takeWhile is_target_char r = ''VALUE''"
  have "r = takeWhile is_target_char r @ dropWhile is_target_char r"
    by simp
  then have "r = ''VALUE'' @ dropWhile is_target_char r"
    unfolding eq .
  then have "strip_prefix ''VALUE'' r = strip_prefix ''VALUE'' (''VALUE'' @ dropWhile is_target_char r)"
    by simp
  then have "strip_prefix ''VALUE'' r = Some (dropWhile is_target_char r)"
    by (simp only: strip_prefix_append)
  with assms show False by simp
qed

lemma word_upper_is_target: "is_word c \<Longrightarrow> c \<notin> set lower_letters \<Longrightarrow> is_target_char c"
  unfolding is_word_def is_target_char_def by auto

lemma takeWhile_longer_than_VALUE:
  assumes "strip_prefix ''VALUE'' r = Some r2" and "starts_word r2"
    and "\<forall>c \<in> set r. c \<notin> set lower_letters"
  shows "takeWhile is_target_char r \<noteq> ''VALUE''"
proof -
  from assms(1) have r: "r = ''VALUE'' @ r2"
    by (rule strip_prefix_Some)
  from assms(2) obtain c r3 where r2: "r2 = c # r3" and "is_word c"
    by (cases r2) (auto simp: starts_word_def)
  with assms(3) r have "is_target_char c"
    by (intro word_upper_is_target) auto
  moreover have "list_all is_target_char ''VALUE''"
    by code_simp
  ultimately have "takeWhile is_target_char r = ''VALUE'' @ c # takeWhile is_target_char r3"
    unfolding r r2 by (simp add: list_all_iff)
  then show ?thesis by simp
qed

lemma call_at_upper_shape:
  assumes "call_at prev s = Some (m1, m2, rest)" and "\<forall>c \<in> set s. c \<notin> set lower_letters"
  shows "(m1 = ''VALUE'' \<and> m2 = None) \<or> (m1 = ''('' \<and> m2 = None) \<or>
    (m2 = Some m1 \<and> m1 \<noteq> [] \<and> list_all is_target_char m1 \<and> m1 \<noteq> ''VALUE'')"
    and "set rest \<subseteq> set s"
proof -
  from assms(1) obtain r where r: "strip_prefix ''CALL'' s = Some r"
    by (auto simp: call_at_def split: option.splits if_splits)
  then have s: "s = ''CALL'' @ r"
    by (rule strip_prefix_Some)
  define r1 where "r1 = dropWhile is_space r"
  have sub: "set r1 \<subseteq> set s"
    unfolding r1_def s by (auto dest: set_dropWhileD)
  with assms(2) have up: "\<forall>c \<in> set r1. c \<notin> set lower_letters"
    by blast
  have paren: "\<not> is_target_char (CHR ''('')"
    by code_simp
  have tw: "list_all is_target_char (takeWhile is_target_char r1)"
    by (auto simp: list_all_iff dest: set_takeWhileD)
  from assms(1) r have m: "(case strip_prefix ''VALUE'' r1 of
       Some r2 \<Rightarrow>
         if \<not> starts_word r2 then Some (''VALUE'', None, r2)
         else Some (takeWhile is_target_char r1, Some (takeWhile is_target_char r1),
                    dropWhile is_target_char r1)
     | None \<Rightarrow>
         (case r1 of
            [] \<Rightarrow> None
          | c # r2 \<Rightarrow>
              if c = CHR ''('' then Some (''('', None, r2)
              else if is_target_char c then
                Some (takeWhile is_target_char r1, Some (takeWhile is_target_char r1),
                      dropWhile is_target_char r1)
              else None)) = Some (m1, m2, rest)"
    unfolding r1_def by (simp add: call_at_def Let_def split: if_splits)
  show "(m1 = ''VALUE'' \<and> m2 = None) \<or> (m1 = ''('' \<and> m2 = None) \<or>
    (m2 = Some m1 \<and> m1 \<noteq> [] \<and> list_all is_target_char m1 \<and> m1 \<noteq> ''VALUE'')"
  proof (cases "strip_prefix ''VALUE'' r1")
    case None
    with m takeWhile_not_VALUE [OF None] tw show ?thesis
      by (cases r1) (auto split: if_splits)
  next
    case (Some r2)
    show ?thesis
    proof (cases "starts_word r2")
      case False
      with m Some show ?thesis by simp
    next
      case True
      have "takeWhile is_target_char r1 \<noteq> []"
        using Some by (cases r1) (auto simp: strip_prefix_def V_class split: if_splits)
      with m Some True takeWhile_longer_than_VALUE [OF Some True up] tw show ?thesis
        by auto
    qed
  qed
  have "set rest \<subseteq> set r1"
  proof (cases "strip_prefix ''VALUE'' r1")
    case None
    with m show ?thesis
      by (cases r1) (auto split: if_splits dest: set_dropWhileD)
  next
    case (Some r2)
    then have "set r2 \<subseteq> set r1"
      by (auto simp: strip_prefix_def split: if_splits dest: in_set_dropD)
    with m Some show ?thesis
      by (auto split: if_splits dest: set_dropWhileD)
  qed
  with sub show "set rest \<subseteq> set s"
    by blast
qed

lemma exec_loop_upper_shape:
  "(m1, m2) \<in> set (exec_loop prev s) \<Longrightarrow> \<forall>c \<in> set s. c \<notin> set lower_letters \<Longrightarrow>
     (m1 = ''VALUE'' \<and> m2 = None) \<or> (m1 = ''('' \<and> m2 = None) \<or>
     (m2 = Some m1 \<and> m1 \<noteq> [] \<and> list_all is_target_char m1 \<and> m1 \<noteq> ''VALUE'')"
proof (induction prev s rule: exec_loop.induct)
  case (1 prev)
  then show ?case by simp
next
  case (2 prev c cs)
  show ?case
  proof (cases "call_at prev (c # cs)")
    case None
    with 2 show ?thesis by simp
  next
    case (Some x)
    obtain a b r where x: "x = (a, b, r)"
      by (cases x) auto
    note sh = call_at_upper_shape [OF Some [unfolded x] "2.prems"(2)]
    from "2.prems"(1) Some x
    have "(m1, m2) = (a, b) \<or> (m1, m2) \<in> set (exec_loop (Some (last a)) r)"
      by simp
    then show ?thesis
    proof
      assume "(m1, m2) = (a, b)"
      with sh(1) show ?thesis by simp
    next
      assume "(m1, m2) \<in> set (exec_loop (Some (last a)) r)"
      moreover from sh(2) "2.prems"(2) have "\<forall>c \<in> set r. c \<notin> set lower_letters"
        by blast
      ultimately show ?thesis
        using "2.IH"(2) [OF Some, of a "(b, r)" b r] x by simp
    qed
  qed
qed

lemma toUpperCase_no_lower: "\<forall>c \<in> set (toUpperCase s). c \<notin> set lower_letters"
  by (auto simp: toUpperCase_def dest: upper_char_not_lower)

text \<open>
  C5, as the code has it. A match of the call pattern is the keyword \<open>CALL\<close> between word
  boundaries (no character of \<open>\w\<close> just before it or just after it), any white space,
  and one of three continuations, tried in this order: \<open>VALUE\<close> ending at a word
  boundary, an opening parenthesis, or the longest non-empty run of characters of the
  class \<open>[A-Z0-9_.$!?@#]\<close>. The first two are dynamic calls: the node \<open>DYNAMIC_CALL\<close> is
  upserted with kind dynamic and the edge from the scope to it, of type \<open>calls-dynamic\<close>,
  is added. A run that is \<open>ON\<close> or \<open>OFF\<close> leaves the state as it is; any other run is
  upserted as a node of kind function and the edge from the scope to it, of type \<open>calls\<close>,
  is added. A keyword followed by anything else is no match, and there is no match after a
  character of \<open>\w\<close>, before one, or where the text does not start with the keyword. Every
  match found in an uppercased statement is of one of these kinds. In every graph at most
  one node has kind dynamic, its id is \<open>DYNAMIC_CALL\<close>, and every edge of type
  \<open>calls-dynamic\<close> ends there: \<open>CALL VALUE expr\<close> and \<open>CALL (name)\<close> give the same graph,
  alone or together.
\<close>

theorem call_match_classification:
  "((case prev of None \<Rightarrow> True | Some p \<Rightarrow> \<not> is_word p) \<and> list_all is_space ws \<longrightarrow>
      (ws \<noteq> [] \<and> \<not> starts_word r \<longrightarrow>
         call_at prev (''CALL'' @ ws @ ''VALUE'' @ r) = Some (''VALUE'', None, r))
      \<and> call_at prev (''CALL'' @ ws @ ''('' @ r) = Some (''('', None, r)
      \<and> (tok \<noteq> [] \<and> list_all is_target_char tok \<and> (ws = [] \<longrightarrow> \<not> is_word (hd tok))
           \<and> (case r of [] \<Rightarrow> True | c # _ \<Rightarrow> \<not> is_target_char c)
           \<and> (case strip_prefix ''VALUE'' (tok @ r) of None \<Rightarrow> True | Some r2 \<Rightarrow> starts_word r2) \<longrightarrow>
         call_at prev (''CALL'' @ ws @ tok @ r) = Some (tok, Some tok, r))
      \<and> ((case r of [] \<Rightarrow> True
            | c # _ \<Rightarrow> \<not> is_target_char c \<and> c \<noteq> CHR ''('' \<and> \<not> is_space c) \<longrightarrow>
         call_at prev (''CALL'' @ ws @ r) = None))
   \<and> process_match n scope (''VALUE'', None) st =
       addEdge (st\<lparr>nodes := upsertNode (nodes st) ''DYNAMIC_CALL'' ''DYNAMIC_CALL'' n Dynamic\<rparr>)
         scope ''DYNAMIC_CALL'' ''calls-dynamic'' n
   \<and> process_match n scope (''('', None) st =
       addEdge (st\<lparr>nodes := upsertNode (nodes st) ''DYNAMIC_CALL'' ''DYNAMIC_CALL'' n Dynamic\<rparr>)
         scope ''DYNAMIC_CALL'' ''calls-dynamic'' n
   \<and> (list_all is_target_char tok \<and> tok \<noteq> ''VALUE'' \<longrightarrow>
        process_match n scope (tok, Some tok) st =
          (if tok = ''ON'' \<or> tok = ''OFF'' then st
           else addEdge (st\<lparr>nodes := upsertNode (nodes st) tok tok n Function\<rparr>)
                  scope tok ''calls'' n))
   \<and> ((m1, m2) \<in> set (exec_loop None (toUpperCase segment)) \<longrightarrow>
        (m1 = ''VALUE'' \<and> m2 = None) \<or> (m1 = ''('' \<and> m2 = None) \<or>
        (m2 = Some m1 \<and> m1 \<noteq> [] \<and> list_all is_target_char m1 \<and> m1 \<noteq> ''VALUE''))
   \<and> set (map node_id (filter (\<lambda>x. node_kind x = Dynamic)
          (nodes (parseRexxControlFlow lc source)))) \<subseteq> {''DYNAMIC_CALL''}
   \<and> length (filter (\<lambda>x. node_kind x = Dynamic) (nodes (parseRexxControlFlow lc source))) \<le> 1
   \<and> set (map edge_to (filter (\<lambda>e. edge_type e = ''calls-dynamic'')
          (edges (parseRexxControlFlow lc source)))) \<subseteq> {''DYNAMIC_CALL''}
   \<and> parseRexxControlFlow lc ''CALL VALUE expr'' =
        \<lparr>nodes = [main_node, \<lparr>node_id = ''DYNAMIC_CALL'', node_label = ''DYNAMIC_CALL'',
            node_line = 1, node_kind = Dynamic\<rparr>],
         edges = [\<lparr>edge_from = ''MAIN'', edge_to = ''DYNAMIC_CALL'',
            edge_type = ''calls-dynamic'', edge_line = 1\<rparr>]\<rparr>
   \<and> parseRexxControlFlow lc ''CALL (name)'' = parseRexxControlFlow lc ''CALL VALUE expr''
   \<and> parseRexxControlFlow lc ''CALL VALUE expr\<newline>CALL (name)'' =
       parseRexxControlFlow lc ''CALL VALUE expr''
   \<and> (is_word pc \<longrightarrow> call_at (Some pc) sx = None)
   \<and> (starts_word rx \<longrightarrow> call_at px (''CALL'' @ rx) = None)
   \<and> (strip_prefix ''CALL'' sx = None \<longrightarrow> call_at px sx = None)"
proof (intro conjI impI)
  assume k: "(case prev of None \<Rightarrow> True | Some p \<Rightarrow> \<not> is_word p) \<and> list_all is_space ws"
  assume a: "ws \<noteq> [] \<and> \<not> starts_word r"
  have "call_at prev (''CALL'' @ ws @ (''VALUE'' @ r)) =
      (case strip_prefix ''VALUE'' (''VALUE'' @ r) of
         Some r2 \<Rightarrow>
           if \<not> starts_word r2 then Some (''VALUE'', None, r2)
           else Some (takeWhile is_target_char (''VALUE'' @ r),
                  Some (takeWhile is_target_char (''VALUE'' @ r)),
                  dropWhile is_target_char (''VALUE'' @ r))
       | None \<Rightarrow>
           (case ''VALUE'' @ r of
              [] \<Rightarrow> None
            | c # r2 \<Rightarrow>
                if c = CHR ''('' then Some (''('', None, r2)
                else if is_target_char c then
                  Some (takeWhile is_target_char (''VALUE'' @ r),
                        Some (takeWhile is_target_char (''VALUE'' @ r)),
                        dropWhile is_target_char (''VALUE'' @ r))
                else None))"
    using k a by (intro call_at_keyword) (simp_all add: V_class)
  then have "call_at prev (''CALL'' @ ws @ (''VALUE'' @ r)) =
      (if \<not> starts_word r then Some (''VALUE'', None, r)
       else Some (takeWhile is_target_char (''VALUE'' @ r),
              Some (takeWhile is_target_char (''VALUE'' @ r)),
              dropWhile is_target_char (''VALUE'' @ r)))"
    by (simp only: strip_prefix_append option.case)
  with a show "call_at prev (''CALL'' @ ws @ ''VALUE'' @ r) = Some (''VALUE'', None, r)"
    by simp
next
  assume k: "(case prev of None \<Rightarrow> True | Some p \<Rightarrow> \<not> is_word p) \<and> list_all is_space ws"
  have n: "strip_prefix ''VALUE'' (CHR ''('' # r) = None"
    by (simp add: strip_prefix_def)
  have "call_at prev (''CALL'' @ ws @ (CHR ''('' # r)) =
      (case strip_prefix ''VALUE'' (CHR ''('' # r) of
         Some r2 \<Rightarrow>
           if \<not> starts_word r2 then Some (''VALUE'', None, r2)
           else Some (takeWhile is_target_char (CHR ''('' # r),
                  Some (takeWhile is_target_char (CHR ''('' # r)),
                  dropWhile is_target_char (CHR ''('' # r))
       | None \<Rightarrow>
           (case CHR ''('' # r of
              [] \<Rightarrow> None
            | c # r2 \<Rightarrow>
                if c = CHR ''('' then Some (''('', None, r2)
                else if is_target_char c then
                  Some (takeWhile is_target_char (CHR ''('' # r),
                        Some (takeWhile is_target_char (CHR ''('' # r)),
                        dropWhile is_target_char (CHR ''('' # r))
                else None))"
    using k by (intro call_at_keyword) (simp_all add: paren_class starts_word_def)
  then show "call_at prev (''CALL'' @ ws @ ''('' @ r) = Some (''('', None, r)"
    unfolding n by simp
next
  assume k: "(case prev of None \<Rightarrow> True | Some p \<Rightarrow> \<not> is_word p) \<and> list_all is_space ws"
  assume a: "tok \<noteq> [] \<and> list_all is_target_char tok \<and> (ws = [] \<longrightarrow> \<not> is_word (hd tok))
           \<and> (case r of [] \<Rightarrow> True | c # _ \<Rightarrow> \<not> is_target_char c)
           \<and> (case strip_prefix ''VALUE'' (tok @ r) of None \<Rightarrow> True | Some r2 \<Rightarrow> starts_word r2)"
  then obtain c t where tok: "tok = c # t" and c: "is_target_char c"
    by (cases tok) auto
  from c have c': "\<not> is_space c" "c \<noteq> CHR ''(''"
    using target_not_space paren_class by auto
  from a have tw: "takeWhile is_target_char (tok @ r) = tok"
    and dw: "dropWhile is_target_char (tok @ r) = r"
    using takeWhile_token [of tok r] by simp_all
  have "call_at prev (''CALL'' @ ws @ (tok @ r)) =
      (case strip_prefix ''VALUE'' (tok @ r) of
         Some r2 \<Rightarrow>
           if \<not> starts_word r2 then Some (''VALUE'', None, r2)
           else Some (takeWhile is_target_char (tok @ r),
                  Some (takeWhile is_target_char (tok @ r)),
                  dropWhile is_target_char (tok @ r))
       | None \<Rightarrow>
           (case tok @ r of
              [] \<Rightarrow> None
            | c # r2 \<Rightarrow>
                if c = CHR ''('' then Some (''('', None, r2)
                else if is_target_char c then
                  Some (takeWhile is_target_char (tok @ r),
                        Some (takeWhile is_target_char (tok @ r)),
                        dropWhile is_target_char (tok @ r))
                else None))"
    using k a tok c' by (intro call_at_keyword) (simp_all add: starts_word_def)
  also have "\<dots> = Some (tok, Some tok, r)"
    unfolding tw dw using a tok c c'
    by (cases "strip_prefix ''VALUE'' (tok @ r)") simp_all
  finally show "call_at prev (''CALL'' @ ws @ tok @ r) = Some (tok, Some tok, r)" .
next
  assume k: "(case prev of None \<Rightarrow> True | Some p \<Rightarrow> \<not> is_word p) \<and> list_all is_space ws"
  assume a: "case r of [] \<Rightarrow> True
            | c # _ \<Rightarrow> \<not> is_target_char c \<and> c \<noteq> CHR ''('' \<and> \<not> is_space c"
  show "call_at prev (''CALL'' @ ws @ r) = None"
  proof (cases "ws = [] \<and> starts_word r")
    case True
    then have "call_at prev (''CALL'' @ r) = None"
      unfolding call_at_def strip_prefix_append by simp
    with True show ?thesis
      by simp
  next
    case False
    have n: "strip_prefix ''VALUE'' r = None"
      using a V_class by (cases r) (auto simp: strip_prefix_def)
    from a have "case r of [] \<Rightarrow> True | c # _ \<Rightarrow> \<not> is_space c"
      by (cases r) simp_all
    with k False have "call_at prev (''CALL'' @ ws @ r) =
      (case strip_prefix ''VALUE'' r of
         Some r2 \<Rightarrow>
           if \<not> starts_word r2 then Some (''VALUE'', None, r2)
           else Some (takeWhile is_target_char r, Some (takeWhile is_target_char r),
                  dropWhile is_target_char r)
       | None \<Rightarrow>
           (case r of
              [] \<Rightarrow> None
            | c # r2 \<Rightarrow>
                if c = CHR ''('' then Some (''('', None, r2)
                else if is_target_char c then
                  Some (takeWhile is_target_char r, Some (takeWhile is_target_char r),
                        dropWhile is_target_char r)
                else None))"
      by (intro call_at_keyword) auto
    with a show ?thesis
      unfolding n by (cases r) simp_all
  qed
next
  show "process_match n scope (''VALUE'', None) st =
       addEdge (st\<lparr>nodes := upsertNode (nodes st) ''DYNAMIC_CALL'' ''DYNAMIC_CALL'' n Dynamic\<rparr>)
         scope ''DYNAMIC_CALL'' ''calls-dynamic'' n"
    by (simp add: process_match_def)
next
  show "process_match n scope (''('', None) st =
       addEdge (st\<lparr>nodes := upsertNode (nodes st) ''DYNAMIC_CALL'' ''DYNAMIC_CALL'' n Dynamic\<rparr>)
         scope ''DYNAMIC_CALL'' ''calls-dynamic'' n"
    by (simp add: process_match_def)
next
  assume a: "list_all is_target_char tok \<and> tok \<noteq> ''VALUE''"
  then have "tok \<noteq> ''(''"
    using paren_class by auto
  with a show "process_match n scope (tok, Some tok) st =
          (if tok = ''ON'' \<or> tok = ''OFF'' then st
           else addEdge (st\<lparr>nodes := upsertNode (nodes st) tok tok n Function\<rparr>)
                  scope tok ''calls'' n)"
    by (simp add: process_match_def normalizeLabel_target)
next
  assume "(m1, m2) \<in> set (exec_loop None (toUpperCase segment))"
  then show "(m1 = ''VALUE'' \<and> m2 = None) \<or> (m1 = ''('' \<and> m2 = None) \<or>
        (m2 = Some m1 \<and> m1 \<noteq> [] \<and> list_all is_target_char m1 \<and> m1 \<noteq> ''VALUE'')"
    using toUpperCase_no_lower by (rule exec_loop_upper_shape)
next
  show "set (map node_id (filter (\<lambda>x. node_kind x = Dynamic)
          (nodes (parseRexxControlFlow lc source)))) \<subseteq> {''DYNAMIC_CALL''}"
    by (rule dynamic_nodes_shared)
next
  show "length (filter (\<lambda>x. node_kind x = Dynamic) (nodes (parseRexxControlFlow lc source))) \<le> 1"
    by (rule dynamic_nodes_shared)
next
  show "set (map edge_to (filter (\<lambda>e. edge_type e = ''calls-dynamic'')
          (edges (parseRexxControlFlow lc source)))) \<subseteq> {''DYNAMIC_CALL''}"
    by (rule dynamic_nodes_shared)
next
  show "parseRexxControlFlow lc ''CALL VALUE expr'' =
        \<lparr>nodes = [main_node, \<lparr>node_id = ''DYNAMIC_CALL'', node_label = ''DYNAMIC_CALL'',
            node_line = 1, node_kind = Dynamic\<rparr>],
         edges = [\<lparr>edge_from = ''MAIN'', edge_to = ''DYNAMIC_CALL'',
            edge_type = ''calls-dynamic'', edge_line = 1\<rparr>]\<rparr>"
    by code_simp
next
  show "parseRexxControlFlow lc ''CALL (name)'' = parseRexxControlFlow lc ''CALL VALUE expr''"
    by code_simp
next
  show "parseRexxControlFlow lc ''CALL VALUE expr\<newline>CALL (name)'' =
       parseRexxControlFlow lc ''CALL VALUE expr''"
    by code_simp
next
  assume "is_word pc"
  then show "call_at (Some pc) sx = None"
    by (simp add: call_at_def)
next
  assume "starts_word rx"
  then show "call_at px (''CALL'' @ rx) = None"
    unfolding call_at_def strip_prefix_append by simp
next
  assume "strip_prefix ''CALL'' sx = None"
  then show "call_at px sx = None"
    by (simp add: call_at_def)
qed

theorem call_match_classification_witness:
  "call_at (Some (CHR '' '')) ''CALL LOG TEXT'' = Some (''LOG'', Some ''LOG'', '' TEXT'')
   \<and> call_at (Some (CHR '' '')) ''CALL VALUE EXPR'' = Some (''VALUE'', None, '' EXPR'')
   \<and> call_at (Some (CHR '' '')) (''CALL '' @ CHR 0x27 # ''X'' @ [CHR 0x27]) = None
   \<and> process_match 3 ''WORKER'' (''OFF'', Some ''OFF'') initial = initial
   \<and> process_match 3 ''WORKER'' (''LOG'', Some ''LOG'') initial =
       addEdge (initial\<lparr>nodes := upsertNode (nodes initial) ''LOG'' ''LOG'' 3 Function\<rparr>)
         ''WORKER'' ''LOG'' ''calls'' 3
   \<and> (''LOG'', Some ''LOG'') \<in> set (exec_loop None (toUpperCase ''if cond then call log text''))
   \<and> call_at (Some (CHR ''E'')) ''CALL X'' = None
   \<and> call_at None ''CALLS X'' = None
   \<and> call_at None ''ALL X'' = None
   \<and> call_at None (''CALL'' @ [CHR 0xA0] @ ''X'') = Some (''X'', Some ''X'', [])
   \<and> exec_loop None (toUpperCase (''call '' @ [CHR 0xDF] @ ''x'')) = [(''SSX'', Some ''SSX'')]"
proof -
  have k: "(case Some (CHR '' '') of None \<Rightarrow> True | Some p \<Rightarrow> \<not> is_word p) \<and> list_all is_space '' ''"
    by code_simp
  have h1: "'' '' \<noteq> [] \<and> \<not> starts_word '' EXPR''"
    by code_simp
  have h3: "''LOG'' \<noteq> [] \<and> list_all is_target_char ''LOG'' \<and> ('' '' = [] \<longrightarrow> \<not> is_word (hd ''LOG''))
      \<and> (case '' TEXT'' of [] \<Rightarrow> True | c # _ \<Rightarrow> \<not> is_target_char c)
      \<and> (case strip_prefix ''VALUE'' (''LOG'' @ '' TEXT'') of None \<Rightarrow> True | Some r2 \<Rightarrow> starts_word r2)"
    by code_simp
  have h4: "case CHR 0x27 # ''X'' @ [CHR 0x27] of [] \<Rightarrow> True
      | c # _ \<Rightarrow> \<not> is_target_char c \<and> c \<noteq> CHR ''('' \<and> \<not> is_space c"
    by code_simp
  have h5: "list_all is_target_char ''OFF'' \<and> ''OFF'' \<noteq> ''VALUE''"
    and h6: "list_all is_target_char ''LOG'' \<and> ''LOG'' \<noteq> ''VALUE''"
    by code_simp+
  have m: "(''LOG'', Some ''LOG'') \<in> set (exec_loop None (toUpperCase ''if cond then call log text''))"
    by code_simp
  note c = call_match_classification [where prev = "Some (CHR '' '')" and ws = "'' ''"
      and n = 3 and scope = "''WORKER''" and st = initial]
  have a: "call_at (Some (CHR '' '')) ''CALL LOG TEXT'' = Some (''LOG'', Some ''LOG'', '' TEXT'')"
    using c [where tok = "''LOG''" and r = "'' TEXT''", THEN conjunct1, rule_format, OF k,
        THEN conjunct2, THEN conjunct2, THEN conjunct1, rule_format, OF h3]
    by simp
  have b: "call_at (Some (CHR '' '')) ''CALL VALUE EXPR'' = Some (''VALUE'', None, '' EXPR'')"
    using c [where r = "'' EXPR''", THEN conjunct1, rule_format, OF k,
        THEN conjunct1, rule_format, OF h1]
    by simp
  have d: "call_at (Some (CHR '' '')) (''CALL '' @ CHR 0x27 # ''X'' @ [CHR 0x27]) = None"
    using c [where r = "CHR 0x27 # ''X'' @ [CHR 0x27]", THEN conjunct1, rule_format, OF k,
        THEN conjunct2, THEN conjunct2, THEN conjunct2, rule_format, OF h4]
    by simp
  have e: "process_match 3 ''WORKER'' (''OFF'', Some ''OFF'') initial = initial"
    using c [where tok = "''OFF''", THEN conjunct2, THEN conjunct2, THEN conjunct2,
        THEN conjunct1, rule_format, OF h5]
    by simp
  have f: "process_match 3 ''WORKER'' (''LOG'', Some ''LOG'') initial =
       addEdge (initial\<lparr>nodes := upsertNode (nodes initial) ''LOG'' ''LOG'' 3 Function\<rparr>)
         ''WORKER'' ''LOG'' ''calls'' 3"
    using c [where tok = "''LOG''", THEN conjunct2, THEN conjunct2, THEN conjunct2,
        THEN conjunct1, rule_format, OF h6]
    by simp
  have w1: "is_word (CHR ''E'')" and w2: "starts_word ''S X''"
    and w3: "strip_prefix ''CALL'' ''ALL X'' = None"
    by code_simp+
  have g: "call_at (Some (CHR ''E'')) ''CALL X'' = None"
    by (rule call_match_classification [where pc = "CHR ''E''" and sx = "''CALL X''",
        THEN conjunct2, THEN conjunct2, THEN conjunct2, THEN conjunct2, THEN conjunct2,
        THEN conjunct2, THEN conjunct2, THEN conjunct2, THEN conjunct2, THEN conjunct2,
        THEN conjunct2, THEN conjunct1, rule_format, OF w1])
  have h: "call_at None ''CALLS X'' = None"
    using call_match_classification [where rx = "''S X''" and px = None,
        THEN conjunct2, THEN conjunct2, THEN conjunct2, THEN conjunct2, THEN conjunct2,
        THEN conjunct2, THEN conjunct2, THEN conjunct2, THEN conjunct2, THEN conjunct2,
        THEN conjunct2, THEN conjunct2, THEN conjunct1, rule_format, OF w2]
    by simp
  have i: "call_at None ''ALL X'' = None"
    by (rule call_match_classification [where sx = "''ALL X''" and px = None,
        THEN conjunct2, THEN conjunct2, THEN conjunct2, THEN conjunct2, THEN conjunct2,
        THEN conjunct2, THEN conjunct2, THEN conjunct2, THEN conjunct2, THEN conjunct2,
        THEN conjunct2, THEN conjunct2, THEN conjunct2, rule_format, OF w3])
  have k2: "(case None :: char option of None \<Rightarrow> True | Some p \<Rightarrow> \<not> is_word p)
      \<and> list_all is_space [CHR 0xA0]"
    by code_simp
  have h7: "''X'' \<noteq> [] \<and> list_all is_target_char ''X'' \<and> ([CHR 0xA0] = [] \<longrightarrow> \<not> is_word (hd ''X''))
      \<and> (case [] :: string of [] \<Rightarrow> True | c # _ \<Rightarrow> \<not> is_target_char c)
      \<and> (case strip_prefix ''VALUE'' (''X'' @ []) of None \<Rightarrow> True | Some r2 \<Rightarrow> starts_word r2)"
    by code_simp
  have j: "call_at None (''CALL'' @ [CHR 0xA0] @ ''X'') = Some (''X'', Some ''X'', [])"
    using call_match_classification [where prev = None and ws = "[CHR 0xA0]" and tok = "''X''"
        and r = "[]", THEN conjunct1, rule_format, OF k2,
        THEN conjunct2, THEN conjunct2, THEN conjunct1, rule_format, OF h7]
    by simp
  have l: "exec_loop None (toUpperCase (''call '' @ [CHR 0xDF] @ ''x'')) = [(''SSX'', Some ''SSX'')]"
    by code_simp
  from a b d e f m g h i j l show ?thesis
    by (intro conjI)
qed

text \<open>
  The source \<open>CALL 'X'\<close> has the call keyword followed by a quoted name: it is neither the
  dynamic marker nor a parenthesis, and it is not \<open>ON\<close> or \<open>OFF\<close>, yet the graph gets no
  node beside \<open>MAIN\<close> and no edge.
\<close>

theorem call_keyword_without_name_counterexample:
  "parseRexxControlFlow codeUnitCompare (''CALL '' @ CHR 0x27 # ''X'' @ [CHR 0x27]) =
     \<lparr>nodes = [main_node], edges = []\<rparr>"
  by code_simp

subsection \<open>Several matches in one statement\<close>


lemma call_at_token:
  assumes k: "case prev of None \<Rightarrow> True | Some p \<Rightarrow> \<not> is_word p" "list_all is_space ws"
    and tok: "tok \<noteq> []" "list_all is_target_char tok" "ws = [] \<longrightarrow> \<not> is_word (hd tok)"
    and r: "case r of [] \<Rightarrow> True | c # _ \<Rightarrow> \<not> is_target_char c"
    and v: "case strip_prefix ''VALUE'' (tok @ r) of None \<Rightarrow> True | Some r2 \<Rightarrow> starts_word r2"
  shows "call_at prev (''CALL'' @ ws @ tok @ r) = Some (tok, Some tok, r)"
proof -
  from tok obtain c t where t: "tok = c # t" and c: "is_target_char c"
    by (cases tok) auto
  from c have c': "\<not> is_space c" "c \<noteq> CHR ''(''"
    using target_not_space paren_class by auto
  from tok r have tw: "takeWhile is_target_char (tok @ r) = tok"
    and dw: "dropWhile is_target_char (tok @ r) = r"
    using takeWhile_token [of tok r] by simp_all
  have "call_at prev (''CALL'' @ ws @ (tok @ r)) =
      (case strip_prefix ''VALUE'' (tok @ r) of
         Some r2 \<Rightarrow>
           if \<not> starts_word r2 then Some (''VALUE'', None, r2)
           else Some (takeWhile is_target_char (tok @ r),
                  Some (takeWhile is_target_char (tok @ r)),
                  dropWhile is_target_char (tok @ r))
       | None \<Rightarrow>
           (case tok @ r of
              [] \<Rightarrow> None
            | c # r2 \<Rightarrow>
                if c = CHR ''('' then Some (''('', None, r2)
                else if is_target_char c then
                  Some (takeWhile is_target_char (tok @ r),
                        Some (takeWhile is_target_char (tok @ r)),
                        dropWhile is_target_char (tok @ r))
                else None))"
    using k tok t c' by (intro call_at_keyword) (simp_all add: starts_word_def)
  also have "\<dots> = Some (tok, Some tok, r)"
    unfolding tw dw using v t c c'
    by (cases "strip_prefix ''VALUE'' (tok @ r)") simp_all
  finally show ?thesis by simp
qed

lemma space_class: "is_space (CHR 0x20)" "\<not> is_word (CHR 0x20)" "\<not> is_target_char (CHR 0x20)"
  "CHR 0x20 \<notin> set ''VALUE''"
  by code_simp+

lemma call_at_Nil [simp]: "call_at prev [] = None"
  by (simp add: call_at_def strip_prefix_def)

lemma exec_loop_match:
  assumes "call_at prev s = Some (m1, m2, rest)"
  shows "exec_loop prev s = (m1, m2) # exec_loop (Some (last m1)) rest"
  using assms by (cases s) simp_all


subsection \<open>Every match reaches the graph\<close>

lemma addEdge_present:
  assumes "keys_agree st" and "list_all is_target_char t"
  shows "(currentScope st, t, ty) \<in> (\<lambda>e. (edge_from e, edge_to e, edge_type e)) `
    set (edges (addEdge (st\<lparr>nodes := ns\<rparr>) (currentScope st) t ty l))"
proof (cases "edge_key (currentScope st) t ty \<in> edgeKeys st")
  case False
  then show ?thesis
    by (simp add: addEdge_def)
next
  case True
  with assms(1) obtain e where e: "e \<in> set (edges st)"
    and k: "edge_key (currentScope st) t ty = edge_key (edge_from e) (edge_to e) (edge_type e)"
    by (auto simp: keys_agree_def edge_key_of_def)
  from assms(1) e have "list_all is_target_char (edge_from e)" "list_all is_target_char (edge_to e)"
    and "list_all is_target_char (currentScope st)"
    by (auto simp: keys_agree_def list_all_iff)
  with assms(2) k have "currentScope st = edge_from e \<and> t = edge_to e \<and> ty = edge_type e"
    by (intro edge_key_inject) auto
  with e True show ?thesis
    by (force simp: addEdge_def)
qed

lemma addEdge_edges_mono: "set (edges st) \<subseteq> set (edges (addEdge st f t ty l))"
  by (auto simp: addEdge_def)

lemma process_match_edges_mono: "set (edges st) \<subseteq> set (edges (process_match n scope m st))"
proof -
  have "set (edges (st\<lparr>nodes := ns\<rparr>)) \<subseteq> set (edges (addEdge (st\<lparr>nodes := ns\<rparr>) f t ty l))"
    for ns f t ty l
    by (rule addEdge_edges_mono)
  then show ?thesis
    by (cases m) (auto simp: process_match_def Let_def)
qed

lemma fold_process_match_edges_mono:
  "set (edges st) \<subseteq> set (edges (fold (process_match n scope) ms st))"
proof (induction ms arbitrary: st)
  case Nil
  then show ?case by simp
next
  case (Cons m ms)
  from process_match_edges_mono [of st n scope m] Cons [of "process_match n scope m st"]
  show ?case by auto
qed

lemma process_match_keys_agree:
  assumes "keys_agree st" and "scope = currentScope st"
    and "m1 = ''VALUE'' \<or> m1 = ''('' \<or> (m2 = Some m1 \<and> m1 \<noteq> [] \<and> list_all is_target_char m1)"
  shows "keys_agree (process_match n scope (m1, m2) st)"
proof -
  from assms(3) consider "m1 = ''VALUE'' \<or> m1 = ''(''"
    | "m1 \<noteq> ''VALUE''" "m1 \<noteq> ''(''" "m2 = Some m1" "list_all is_target_char m1"
    by blast
  then show ?thesis
  proof cases
    case 1
    with keys_agree_addEdge [OF assms(1) target_DYNAMIC_CALL] assms(2) show ?thesis
      by (auto simp: process_match_def)
  next
    case 2
    with keys_agree_addEdge [OF assms(1) 2(4)] assms(1,2) show ?thesis
      by (simp add: process_match_def normalizeLabel_target)
  qed
qed

lemma fold_process_match_present:
  assumes "keys_agree st" and "currentScope st = scope"
    and "\<forall>(m1, m2) \<in> set ms.
      m1 = ''VALUE'' \<or> m1 = ''('' \<or> (m2 = Some m1 \<and> m1 \<noteq> [] \<and> list_all is_target_char m1)"
    and "(t, Some t) \<in> set ms" and "list_all is_target_char t"
    and "t \<noteq> ''VALUE''" and "t \<noteq> ''ON''" and "t \<noteq> ''OFF''"
  shows "(scope, t, ''calls'') \<in> (\<lambda>e. (edge_from e, edge_to e, edge_type e)) `
    set (edges (fold (process_match n scope) ms st))"
  using assms(1-4)
proof (induction ms arbitrary: st)
  case Nil
  then show ?case by simp
next
  case (Cons m ms)
  obtain m1 m2 where m: "m = (m1, m2)"
    by (cases m) auto
  show ?case
  proof (cases "m = (t, Some t)")
    case True
    have "t \<noteq> ''(''"
      using assms(5) paren_class by auto
    with assms(5-8) have "process_match n scope (t, Some t) st =
        addEdge (st\<lparr>nodes := upsertNode (nodes st) t t n Function\<rparr>) scope t ''calls'' n"
      by (simp add: process_match_def normalizeLabel_target)
    with addEdge_present [OF Cons.prems(1) assms(5), of "''calls''" _ n] Cons.prems(2)
    have "(scope, t, ''calls'') \<in> (\<lambda>e. (edge_from e, edge_to e, edge_type e)) `
        set (edges (process_match n scope m st))"
      unfolding True by simp
    with fold_process_match_edges_mono [of "process_match n scope m st" n scope ms]
    show ?thesis by auto
  next
    case False
    from Cons.prems(3) m have "keys_agree (process_match n scope (m1, m2) st)"
      using Cons.prems(1,2) by (intro process_match_keys_agree) auto
    with Cons.IH [of "process_match n scope m st"] Cons.prems False m show ?thesis
      by auto
  qed
qed

subsection \<open>Text without the keyword\<close>

lemma take_append_take:
  "n \<le> length xs + m \<Longrightarrow> take n (xs @ take m t) = take n (xs @ t)"
  by (simp add: min_def)

lemma keyword_free_no_prefix:
  assumes "\<not> sublist ''CALL'' ((c # pre) @ take 3 t)"
  shows "strip_prefix ''CALL'' ((c # pre) @ t) = None"
proof (rule ccontr)
  assume "strip_prefix ''CALL'' ((c # pre) @ t) \<noteq> None"
  then have "take (length ''CALL'') ((c # pre) @ t) = ''CALL''"
    unfolding strip_prefix_def by (meson option.distinct(1))
  moreover have "take (length ''CALL'') ((c # pre) @ take 3 t) = take (length ''CALL'') ((c # pre) @ t)"
    by (rule take_append_take) simp
  ultimately have "take (length ''CALL'') ((c # pre) @ take 3 t) = ''CALL''"
    by (simp only:)
  then have "prefix ''CALL'' ((c # pre) @ take 3 t)"
    by (metis take_is_prefix)
  then have "sublist ''CALL'' ((c # pre) @ take 3 t)"
    by (rule prefix_imp_sublist)
  with assms show False by simp
qed

lemma exec_loop_keyword_free:
  assumes "\<not> sublist ''CALL'' (pre @ take 3 t)"
  shows "exec_loop prev (pre @ t) = exec_loop (if pre = [] then prev else Some (last pre)) t"
  using assms
proof (induction pre arbitrary: prev)
  case Nil
  then show ?case by simp
next
  case (Cons c pre)
  from Cons.prems have "strip_prefix ''CALL'' ((c # pre) @ t) = None"
    by (rule keyword_free_no_prefix)
  then have "call_at prev (c # pre @ t) = None"
    by (simp add: call_at_def)
  then have "exec_loop prev ((c # pre) @ t) = exec_loop (Some c) (pre @ t)"
    by simp
  moreover from Cons.prems have "\<not> sublist ''CALL'' (pre @ take 3 t)"
    by (simp add: sublist_Cons_right)
  ultimately show ?case
    using Cons.IH [of "Some c"] by simp
qed

lemma exec_loop_no_keyword: "\<not> sublist ''CALL'' s \<Longrightarrow> exec_loop prev s = []"
  using exec_loop_keyword_free [of s "[]" prev] by simp

lemma exec_loop_call_after_text:
  assumes pre: "\<not> sublist ''CALL'' (pre @ ''CAL'')"
    and b: "case (if pre = [] then prev else Some (last pre)) of None \<Rightarrow> True | Some p \<Rightarrow> \<not> is_word p"
    and ws: "list_all is_space ws"
    and tok: "tok \<noteq> []" "list_all is_target_char tok" "ws = [] \<longrightarrow> \<not> is_word (hd tok)"
    and r: "case r of [] \<Rightarrow> True | c # _ \<Rightarrow> \<not> is_target_char c"
    and v: "case strip_prefix ''VALUE'' (tok @ r) of None \<Rightarrow> True | Some r2 \<Rightarrow> starts_word r2"
  shows "exec_loop prev (pre @ ''CALL'' @ ws @ tok @ r) = (tok, Some tok) # exec_loop (Some (last tok)) r"
proof -
  let ?p = "if pre = [] then prev else Some (last pre)"
  have "take 3 (''CALL'' @ ws @ tok @ r) = ''CAL''"
    by simp
  with pre have "exec_loop prev (pre @ (''CALL'' @ ws @ tok @ r)) = exec_loop ?p (''CALL'' @ ws @ tok @ r)"
    by (intro exec_loop_keyword_free) simp
  moreover have "call_at ?p (''CALL'' @ ws @ tok @ r) = Some (tok, Some tok, r)"
    using b ws tok r v by (rule call_at_token)
  ultimately show ?thesis
    by (simp only: exec_loop_match)
qed




lemma process_segment_present:
  assumes "keys_agree st" and "currentScope st = scope"
    and "(t, Some t) \<in> set (exec_loop None (toUpperCase segment))"
    and "t \<noteq> ''ON''" and "t \<noteq> ''OFF''"
  shows "(scope, t, ''calls'') \<in> (\<lambda>e. (edge_from e, edge_to e, edge_type e)) `
    set (edges (process_segment n scope segment st))"
proof -
  let ?ms = "exec_loop None (toUpperCase segment)"
  have sh: "\<forall>(m1, m2) \<in> set ?ms.
      m1 = ''VALUE'' \<or> m1 = ''('' \<or> (m2 = Some m1 \<and> m1 \<noteq> [] \<and> list_all is_target_char m1)"
    using exec_loop_shape [of _ _ None "toUpperCase segment"] by blast
  from assms(3) exec_loop_upper_shape [of t "Some t" None "toUpperCase segment"] toUpperCase_no_lower
  have t: "list_all is_target_char t" "t \<noteq> ''VALUE''"
    using paren_class by auto
  from assms sh t show ?thesis
    unfolding process_segment_def by (intro fold_process_match_present) simp_all
qed




subsection \<open>Block comments\<close>

lemma stripComments_loop_inside:
  "\<not> contains_close l \<Longrightarrow> stripComments_loop l True res = (res, True)"
  by (induction l True res rule: stripComments_loop.induct) auto

lemma stripComments_loop_open:
  "\<not> contains_close b \<Longrightarrow> stripComments_loop (''/*'' @ b) False res = (res, True)"
  by (simp add: stripComments_loop_inside)

lemma stripComments_loop_then_open:
  "stripComments_loop a bc res = (kept, False) \<Longrightarrow>
     stripComments_loop (a @ ''/*'' @ b) bc res = stripComments_loop (''/*'' @ b) False kept"
proof (induction a bc res rule: stripComments_loop.induct)
  case (1 inBC result)
  then show ?case by simp
next
  case (2 c inBC result)
  then show ?case by (auto split: if_splits)
next
  case (3 c d cs inBC result)
  then show ?case by (auto split: if_splits)
qed

lemma addEdge_inBlockComment:
  "addEdge (st\<lparr>inBlockComment := x\<rparr>) f t ty l = (addEdge st f t ty l)\<lparr>inBlockComment := x\<rparr>"
  by (simp add: addEdge_def)

lemma process_match_inBlockComment:
  "process_match n scope m (st\<lparr>inBlockComment := x\<rparr>) =
     (process_match n scope m st)\<lparr>inBlockComment := x\<rparr>"
proof -
  have "addEdge (st\<lparr>inBlockComment := x, nodes := ns\<rparr>) f t ty l =
      (addEdge (st\<lparr>nodes := ns\<rparr>) f t ty l)\<lparr>inBlockComment := x\<rparr>" for ns f t ty l
    by (simp add: addEdge_def)
  then show ?thesis
    by (cases m) (simp add: process_match_def Let_def)
qed

lemma fold_inBlockComment:
  assumes "\<And>m st. f m (st\<lparr>inBlockComment := x\<rparr>) = (f m st)\<lparr>inBlockComment := x\<rparr>"
  shows "fold f ms (st\<lparr>inBlockComment := x\<rparr>) = (fold f ms st)\<lparr>inBlockComment := x\<rparr>"
  by (induction ms arbitrary: st) (simp_all add: assms)

lemma processStatementBlock_inBlockComment:
  "processStatementBlock body n scope (st\<lparr>inBlockComment := x\<rparr>) =
     (processStatementBlock body n scope st)\<lparr>inBlockComment := x\<rparr>"
  unfolding processStatementBlock_def process_segment_def [abs_def]
  by (intro fold_inBlockComment process_match_inBlockComment)

lemma scan_line_same_text:
  assumes "fst (stripComments raw (inBlockComment st)) = fst (stripComments raw' (inBlockComment st))"
  shows "scan_line n raw st =
    (scan_line n raw' st)\<lparr>inBlockComment := snd (stripComments raw (inBlockComment st))\<rparr>"
proof -
  let ?x = "snd (stripComments raw (inBlockComment st))"
  let ?y = "snd (stripComments raw' (inBlockComment st))"
  let ?line = "collapse (fst (stripComments raw' (inBlockComment st)))"
  have u: "s\<lparr>inBlockComment := ?y, inBlockComment := ?x\<rparr> = s\<lparr>inBlockComment := ?x\<rparr>" for s :: scanner
    by simp
  show ?thesis
  proof (cases "label_match ?line")
    case None
    then show ?thesis
      using processStatementBlock_inBlockComment [where body = ?line and n = n and scope = "currentScope st" and st = st]
      by (simp add: scan_line_def Let_def assms)
  next
    case (Some lr)
    obtain label rest where lr: "lr = (label, rest)"
      by (cases lr) auto
    have c: "processStatementBlock body n scope (s\<lparr>inBlockComment := b, currentScope := sc, nodes := ns\<rparr>) =
        (processStatementBlock body n scope (s\<lparr>currentScope := sc, nodes := ns\<rparr>))\<lparr>inBlockComment := b\<rparr>"
      for body scope s b sc ns
    proof -
      have "s\<lparr>inBlockComment := b, currentScope := sc, nodes := ns\<rparr> =
          (s\<lparr>currentScope := sc, nodes := ns\<rparr>)\<lparr>inBlockComment := b\<rparr>"
        by simp
      then show ?thesis
        by (simp only: processStatementBlock_inBlockComment)
    qed
    from Some lr show ?thesis
      by (simp add: scan_line_def Let_def assms c)
  qed
qed

lemma scan_line_inside:
  assumes "inBlockComment st" and "\<not> contains_close l"
  shows "scan_line n l st = st"
  using assms
  by (simp add: scan_line_def stripComments_def stripComments_loop_inside collapse_def trim_def)

lemma scan_lines_inside:
  assumes "inBlockComment st" and "\<forall>l \<in> set ls. \<not> contains_close l"
  shows "scan_lines n ls st = st"
  using assms by (induction ls arbitrary: n) (simp_all add: scan_line_inside)

lemma scan_lines_append:
  "scan_lines n (xs @ ys) st = scan_lines (n + length xs) ys (scan_lines n xs st)"
  by (induction xs arbitrary: n st) simp_all

lemma scan_lines_unterminated:
  assumes a: "snd (stripComments a (inBlockComment (scan_lines n ls1 st))) = False"
    and b: "\<not> contains_close b" and ls2: "\<forall>l \<in> set ls2. \<not> contains_close l"
  shows "scan_lines n (ls1 @ (a @ ''/*'' @ b) # ls2) st =
    (scan_lines n (ls1 @ [a]) st)\<lparr>inBlockComment := True\<rparr>"
proof -
  let ?st = "scan_lines n ls1 st"
  let ?m = "n + length ls1"
  obtain kept where k: "stripComments a (inBlockComment ?st) = (kept, False)"
    using a by (cases "stripComments a (inBlockComment ?st)") simp
  then have "stripComments (a @ ''/*'' @ b) (inBlockComment ?st) = (kept, True)"
    unfolding stripComments_def
    using stripComments_loop_then_open [of a "inBlockComment ?st" "[]" kept b]
      stripComments_loop_open [OF b, of kept]
    by simp
  with k have "scan_line ?m (a @ ''/*'' @ b) ?st = (scan_line ?m a ?st)\<lparr>inBlockComment := True\<rparr>"
    using scan_line_same_text [of "a @ ''/*'' @ b" ?st a ?m] by simp
  moreover have "scan_lines (?m + 1) ls2 ((scan_line ?m a ?st)\<lparr>inBlockComment := True\<rparr>) =
      (scan_line ?m a ?st)\<lparr>inBlockComment := True\<rparr>"
    using ls2 by (intro scan_lines_inside) simp_all
  ultimately show ?thesis
    by (simp add: scan_lines_append)
qed

text \<open>
  C7. A block comment that is opened and not closed swallows the rest of the input.
  When the text after the opening marker has no closing marker, \<open>stripComments\<close> drops
  it and leaves the flag set; a later line without a closing marker is dropped whole; and
  lines scanned with the flag set and no closing marker leave the state as it is: no node,
  no edge, no change of scope. So a source whose lines are \<open>ls1\<close>, then a line with the
  live text \<open>a\<close> followed by the unclosed comment, then any lines \<open>ls2\<close> without a closing
  marker, has the graph of the source that ends with \<open>a\<close>. The scan is a total function:
  there is no error to return.
\<close>

theorem unterminated_comment_drops_the_rest:
  "(\<not> contains_close b \<longrightarrow> stripComments (''/*'' @ b) False = ([], True))
   \<and> (\<not> contains_close l \<longrightarrow> stripComments l True = ([], True))
   \<and> (inBlockComment st \<and> (\<forall>l \<in> set ls. \<not> contains_close l) \<longrightarrow> scan_lines n ls st = st)
   \<and> (snd (stripComments a (inBlockComment (scan_lines n ls1 st))) = False
        \<and> \<not> contains_close b \<and> (\<forall>l \<in> set ls2. \<not> contains_close l) \<longrightarrow>
        scan_lines n (ls1 @ (a @ ''/*'' @ b) # ls2) st =
          (scan_lines n (ls1 @ [a]) st)\<lparr>inBlockComment := True\<rparr>)
   \<and> (split_lines [] source = ls1 @ (a @ ''/*'' @ b) # ls2
        \<and> split_lines [] source' = ls1 @ [a]
        \<and> snd (stripComments a (inBlockComment (scan_lines 1 ls1 initial))) = False
        \<and> \<not> contains_close b \<and> (\<forall>l \<in> set ls2. \<not> contains_close l) \<longrightarrow>
        parseRexxControlFlow lc source = parseRexxControlFlow lc source')
   \<and> parseRexxControlFlow lc ''CALL A\<newline>x = 1 /* open\<newline>B:\<newline>CALL C'' =
        \<lparr>nodes = [main_node,
           \<lparr>node_id = ''A'', node_label = ''A'', node_line = 1, node_kind = Function\<rparr>],
         edges = [\<lparr>edge_from = ''MAIN'', edge_to = ''A'', edge_type = ''calls'', edge_line = 1\<rparr>]\<rparr>"
proof (intro conjI impI)
  assume "\<not> contains_close b"
  then show "stripComments (''/*'' @ b) False = ([], True)"
    unfolding stripComments_def by (rule stripComments_loop_open)
next
  assume "\<not> contains_close l"
  then show "stripComments l True = ([], True)"
    unfolding stripComments_def by (rule stripComments_loop_inside)
next
  assume "inBlockComment st \<and> (\<forall>l \<in> set ls. \<not> contains_close l)"
  then show "scan_lines n ls st = st"
    by (intro scan_lines_inside) simp_all
next
  assume "snd (stripComments a (inBlockComment (scan_lines n ls1 st))) = False
        \<and> \<not> contains_close b \<and> (\<forall>l \<in> set ls2. \<not> contains_close l)"
  then show "scan_lines n (ls1 @ (a @ ''/*'' @ b) # ls2) st =
          (scan_lines n (ls1 @ [a]) st)\<lparr>inBlockComment := True\<rparr>"
    by (intro scan_lines_unterminated) simp_all
next
  assume a: "split_lines [] source = ls1 @ (a @ ''/*'' @ b) # ls2
        \<and> split_lines [] source' = ls1 @ [a]
        \<and> snd (stripComments a (inBlockComment (scan_lines 1 ls1 initial))) = False
        \<and> \<not> contains_close b \<and> (\<forall>l \<in> set ls2. \<not> contains_close l)"
  then have "scan_lines 1 (ls1 @ (a @ ''/*'' @ b) # ls2) initial =
          (scan_lines 1 (ls1 @ [a]) initial)\<lparr>inBlockComment := True\<rparr>"
    by (intro scan_lines_unterminated) simp_all
  with a have "scan source = (scan source')\<lparr>inBlockComment := True\<rparr>"
    by (simp add: scan_def)
  then show "parseRexxControlFlow lc source = parseRexxControlFlow lc source'"
    by (simp add: parseRexxControlFlow_def)
next
  show "parseRexxControlFlow lc ''CALL A\<newline>x = 1 /* open\<newline>B:\<newline>CALL C'' =
        \<lparr>nodes = [main_node,
           \<lparr>node_id = ''A'', node_label = ''A'', node_line = 1, node_kind = Function\<rparr>],
         edges = [\<lparr>edge_from = ''MAIN'', edge_to = ''A'', edge_type = ''calls'', edge_line = 1\<rparr>]\<rparr>"
    by code_simp
qed

theorem unterminated_comment_witness:
  "parseRexxControlFlow codeUnitCompare ''CALL A\<newline>call x /* open\<newline>B:\<newline>CALL C'' =
     parseRexxControlFlow codeUnitCompare ''CALL A\<newline>call x ''
   \<and> stripComments ''/* B: CALL C'' False = ([], True)
   \<and> stripComments ''B: CALL C /'' True = ([], True)
   \<and> scan_lines 3 [''B:'', ''CALL C''] (initial\<lparr>inBlockComment := True\<rparr>) =
       initial\<lparr>inBlockComment := True\<rparr>"
proof -
  note c = unterminated_comment_drops_the_rest
  have h1: "\<not> contains_close '' B: CALL C''" and h2: "\<not> contains_close ''B: CALL C /''"
    by code_simp+
  have h3: "inBlockComment (initial\<lparr>inBlockComment := True\<rparr>)
      \<and> (\<forall>l \<in> set [''B:'', ''CALL C'']. \<not> contains_close l)"
    by (simp add: initial_def)
  have h5: "split_lines [] ''CALL A\<newline>call x /* open\<newline>B:\<newline>CALL C'' =
        [''CALL A''] @ (''call x '' @ ''/*'' @ '' open'') # [''B:'', ''CALL C'']
      \<and> split_lines [] ''CALL A\<newline>call x '' = [''CALL A''] @ [''call x '']
      \<and> snd (stripComments ''call x '' (inBlockComment (scan_lines 1 [''CALL A''] initial))) = False
      \<and> \<not> contains_close '' open'' \<and> (\<forall>l \<in> set [''B:'', ''CALL C'']. \<not> contains_close l)"
    by code_simp
  have a: "parseRexxControlFlow codeUnitCompare ''CALL A\<newline>call x /* open\<newline>B:\<newline>CALL C'' =
     parseRexxControlFlow codeUnitCompare ''CALL A\<newline>call x ''"
    by (rule c [THEN conjunct2, THEN conjunct2, THEN conjunct2, THEN conjunct2, THEN conjunct1,
        THEN mp, OF h5])
  have b: "stripComments ''/* B: CALL C'' False = ([], True)"
    using c [where b = "'' B: CALL C''", THEN conjunct1, THEN mp, OF h1] by simp
  have d: "stripComments ''B: CALL C /'' True = ([], True)"
    by (rule c [THEN conjunct2, THEN conjunct1, THEN mp, OF h2])
  have e: "scan_lines 3 [''B:'', ''CALL C''] (initial\<lparr>inBlockComment := True\<rparr>) =
       initial\<lparr>inBlockComment := True\<rparr>"
    by (rule c [THEN conjunct2, THEN conjunct2, THEN conjunct1, THEN mp, OF h3])
  from a b d e show ?thesis
    by (intro conjI)
qed

subsection \<open>The order of nodes and edges\<close>

lemma set_insert_by [simp]: "set (insert_by cmp x xs) = insert x (set xs)"
  by (induction xs) auto

lemma sorted_insert_by:
  assumes tot: "\<And>x y. cmp x y \<le> 0 \<or> cmp y x \<le> 0"
    and trans: "\<And>x y z. cmp x y \<le> 0 \<Longrightarrow> cmp y z \<le> 0 \<Longrightarrow> cmp x z \<le> 0"
    and "sorted_wrt (\<lambda>a b. cmp a b \<le> 0) xs"
  shows "sorted_wrt (\<lambda>a b. cmp a b \<le> 0) (insert_by cmp x xs)"
  using assms(3)
proof (induction xs)
  case Nil
  then show ?case by simp
next
  case (Cons y ys)
  show ?case
  proof (cases "cmp x y \<le> 0")
    case True
    with Cons.prems trans [of x y] show ?thesis
      by auto
  next
    case False
    with tot [of x y] have "cmp y x \<le> 0"
      by simp
    with False Cons show ?thesis
      by auto
  qed
qed

lemma sorted_sort_by:
  assumes "\<And>x y. cmp x y \<le> 0 \<or> cmp y x \<le> 0"
    and "\<And>x y z. cmp x y \<le> 0 \<Longrightarrow> cmp y z \<le> 0 \<Longrightarrow> cmp x z \<le> 0"
  shows "sorted_wrt (\<lambda>a b. cmp a b \<le> 0) (sort_by cmp xs)"
  unfolding sort_by_def
  by (induction xs) (simp_all add: sorted_insert_by [OF assms])

lemma node_compare_le:
  "node_compare lc a b \<le> 0 \<longleftrightarrow>
     node_id a = ''MAIN'' \<or>
     (node_id b \<noteq> ''MAIN'' \<and>
      (node_line a < node_line b \<or> (node_line a = node_line b \<and> lc (node_id a) (node_id b) \<le> 0)))"
  by (auto simp: node_compare_def)

lemma node_compare_total:
  assumes "\<forall>x y. lc x y \<le> 0 \<or> lc y x \<le> 0"
  shows "node_compare lc a b \<le> 0 \<or> node_compare lc b a \<le> 0"
  using assms [rule_format, of "node_id a" "node_id b"] unfolding node_compare_le
  by (cases "node_line a < node_line b"; cases "node_line b < node_line a") auto

lemma node_compare_trans:
  assumes "\<forall>x y z. lc x y \<le> 0 \<longrightarrow> lc y z \<le> 0 \<longrightarrow> lc x z \<le> 0"
    and "node_compare lc a b \<le> 0" and "node_compare lc b c \<le> 0"
  shows "node_compare lc a c \<le> 0"
  using assms(2,3) assms(1) [rule_format, of "node_id a" "node_id b" "node_id c"]
  unfolding node_compare_le by auto

lemma main_first:
  assumes s: "sorted_wrt (\<lambda>a b. node_compare lc a b \<le> 0) ns"
    and f: "filter (\<lambda>x. node_id x = ''MAIN'') ns = [main_node]"
  shows "ns = main_node # tl ns" and "filter (\<lambda>x. node_id x = ''MAIN'') (tl ns) = []"
proof -
  from f obtain h rest where ns: "ns = h # rest"
    by (cases ns) auto
  have "main_node \<in> set (filter (\<lambda>x. node_id x = ''MAIN'') ns)"
    unfolding f by simp
  then have m: "main_node \<in> set ns" "node_id main_node = ''MAIN''"
    by simp_all
  have "node_id h = ''MAIN''"
  proof (rule ccontr)
    assume h: "node_id h \<noteq> ''MAIN''"
    with m ns have "main_node \<in> set rest"
      by auto
    with s ns have "node_compare lc h main_node \<le> 0"
      by auto
    with h m(2) show False
      unfolding node_compare_le by simp
  qed
  with f ns show "ns = main_node # tl ns" and "filter (\<lambda>x. node_id x = ''MAIN'') (tl ns) = []"
    by simp_all
qed

subsection \<open>Edges are appended\<close>

lemma addEdge_prefix: "prefix (edges st) (edges (addEdge st f t ty l))"
  by (simp add: addEdge_def)

lemma addEdge_lines:
  assumes "sorted (map edge_line (edges st))" and "\<forall>e \<in> set (edges st). edge_line e \<le> n"
  shows "sorted (map edge_line (edges (addEdge (st\<lparr>nodes := ns\<rparr>) f t ty n)))"
    and "\<forall>e \<in> set (edges (addEdge (st\<lparr>nodes := ns\<rparr>) f t ty n)). edge_line e \<le> n"
  using assms by (auto simp: addEdge_def sorted_append)

lemma scan_lines_edge_lines:
  assumes "sorted (map edge_line (edges st))" and "\<forall>e \<in> set (edges st). edge_line e \<le> n"
  shows "sorted (map edge_line (edges (scan_lines n ls st)))"
proof -
  let ?P = "\<lambda>n st. sorted (map edge_line (edges st)) \<and> (\<forall>e \<in> set (edges st). edge_line e \<le> n)"
  have "?P (n + length ls) (scan_lines n ls st)"
  proof (rule scan_lines_invariant [where P = ?P])
    show "?P n st"
      using assms by simp
  next
    fix n and st :: scanner
    assume "?P n st"
    then show "?P n (addEdge (st\<lparr>nodes := upsertNode (nodes st) ''DYNAMIC_CALL''
        ''DYNAMIC_CALL'' n Dynamic\<rparr>) (currentScope st) ''DYNAMIC_CALL'' ''calls-dynamic'' n)"
      using addEdge_lines [of st n] by blast
  next
    fix n and st :: scanner and t :: string
    assume "?P n st"
    then show "?P n (addEdge (st\<lparr>nodes := upsertNode (nodes st) t t n Function\<rparr>)
        (currentScope st) t ''calls'' n)"
      using addEdge_lines [of st n] by blast
  qed auto
  then show ?thesis by simp
qed

lemma scan_lines_edges_prefix: "prefix (edges st) (edges (scan_lines n ls st))"
proof -
  let ?P = "\<lambda>(n :: nat) s. prefix (edges st) (edges s)"
  have "?P (n + length ls) (scan_lines n ls st)"
  proof (rule scan_lines_invariant [where P = ?P])
    show "?P n st" by simp
  next
    fix n and s :: scanner
    assume "?P n s"
    then show "?P n (addEdge (s\<lparr>nodes := upsertNode (nodes s) ''DYNAMIC_CALL''
        ''DYNAMIC_CALL'' n Dynamic\<rparr>) (currentScope s) ''DYNAMIC_CALL'' ''calls-dynamic'' n)"
      using addEdge_prefix [of "s\<lparr>nodes := upsertNode (nodes s) ''DYNAMIC_CALL''
        ''DYNAMIC_CALL'' n Dynamic\<rparr>"] by (auto intro: prefix_order.trans)
  next
    fix n and s :: scanner and t :: string
    assume "?P n s"
    then show "?P n (addEdge (s\<lparr>nodes := upsertNode (nodes s) t t n Function\<rparr>)
        (currentScope s) t ''calls'' n)"
      using addEdge_prefix [of "s\<lparr>nodes := upsertNode (nodes s) t t n Function\<rparr>"]
      by (auto intro: prefix_order.trans)
  qed auto
  then show ?thesis by simp
qed

subsection \<open>The collation of ids\<close>

lemma position_less: "c \<in> set xs \<Longrightarrow> position c xs < length xs"
  by (induction xs) auto

lemma position_inj:
  "c \<in> set xs \<Longrightarrow> d \<in> set xs \<Longrightarrow> position c xs = position d xs \<Longrightarrow> c = d"
  by (induction xs) (auto split: if_splits)

lemma collation_rank_inj:
  assumes "collation_rank c = collation_rank d"
  shows "c = d"
proof (cases "c \<in> set collation_order"; cases "d \<in> set collation_order")
  assume "c \<in> set collation_order" and "d \<in> set collation_order"
  with assms show ?thesis
    by (auto simp: collation_rank_def intro: position_inj)
next
  assume c: "c \<in> set collation_order" and d: "d \<notin> set collation_order"
  from position_less [OF c] assms c d show ?thesis
    by (simp add: collation_rank_def)
next
  assume c: "c \<notin> set collation_order" and d: "d \<in> set collation_order"
  from position_less [OF d] assms c d show ?thesis
    by (simp add: collation_rank_def)
next
  assume "c \<notin> set collation_order" and "d \<notin> set collation_order"
  with assms show ?thesis
    by (simp add: collation_rank_def)
qed

lemma localeCompare_root_less:
  "localeCompare_root x y < 0 \<longleftrightarrow> map collation_rank x < map collation_rank y"
  by (induction x y rule: localeCompare_root.induct) auto

lemma localeCompare_root_le:
  "localeCompare_root x y \<le> 0 \<longleftrightarrow> map collation_rank x \<le> map collation_rank y"
  by (induction x y rule: localeCompare_root.induct) auto

lemma localeCompare_root_eq: "localeCompare_root x y = 0 \<longleftrightarrow> x = y"
  by (induction x y rule: localeCompare_root.induct) (auto dest: collation_rank_inj)

lemma localeCompare_root_total:
  "\<forall>x y. localeCompare_root x y \<le> 0 \<or> localeCompare_root y x \<le> 0"
  unfolding localeCompare_root_le by (simp add: linear)

lemma localeCompare_root_trans:
  "\<forall>x y z. localeCompare_root x y \<le> 0 \<longrightarrow> localeCompare_root y z \<le> 0 \<longrightarrow>
     localeCompare_root x z \<le> 0"
  unfolding localeCompare_root_le by auto

lemma ranks_of_class:
  "map collation_rank (''_!?.@#$'' @ digits @ upper_letters) = [0 ..< 43]"
  by code_simp

lemma upsertNode_ids_class:
  assumes "list_all (\<lambda>x. list_all is_target_char (node_id x)) ns" and "list_all is_target_char i"
  shows "list_all (\<lambda>x. list_all is_target_char (node_id x)) (upsertNode ns i l ln k)"
proof -
  have "set (map node_id (upsertNode ns i l ln k)) \<subseteq> insert i (set (map node_id ns))"
    by (auto simp: upsertNode_ids)
  with assms show ?thesis
    unfolding list_all_iff by auto
qed

lemma scan_ids_class:
  "list_all (\<lambda>x. list_all is_target_char (node_id x)) (nodes (scan source))"
proof -
  let ?P = "\<lambda>(n :: nat) st. list_all (\<lambda>x. list_all is_target_char (node_id x)) (nodes st)"
  have "?P (1 + length (split_lines [] source)) (scan_lines 1 (split_lines [] source) initial)"
  proof (rule scan_lines_invariant [where P = ?P])
    show "?P 1 initial"
      using target_MAIN by (simp add: initial_def)
  next
    fix n and st :: scanner
    assume "?P n st"
    then show "?P n (addEdge (st\<lparr>nodes := upsertNode (nodes st) ''DYNAMIC_CALL''
        ''DYNAMIC_CALL'' n Dynamic\<rparr>) (currentScope st) ''DYNAMIC_CALL'' ''calls-dynamic'' n)"
      using upsertNode_ids_class [OF _ target_DYNAMIC_CALL] by simp
  qed (simp_all add: upsertNode_ids_class)
  then show ?thesis
    by (simp add: scan_def)
qed

lemma sorted_wrt_strict:
  assumes "sorted_wrt (\<lambda>a b. node_compare localeCompare_root a b \<le> 0) ns"
    and "distinct (map node_id ns)" and "\<forall>x \<in> set ns. node_id x \<noteq> ''MAIN''"
  shows "sorted_wrt (\<lambda>a b. node_line a < node_line b \<or>
      (node_line a = node_line b \<and> map collation_rank (node_id a) < map collation_rank (node_id b))) ns"
  using assms
proof (induction ns)
  case Nil
  then show ?case by simp
next
  case (Cons a ns)
  have "node_line a < node_line b \<or>
      (node_line a = node_line b \<and> map collation_rank (node_id a) < map collation_rank (node_id b))"
    if b: "b \<in> set ns" for b
  proof -
    from Cons.prems(1) b have c: "node_compare localeCompare_root a b \<le> 0"
      by simp
    from Cons.prems(2) b have "node_id a \<noteq> node_id b"
      by auto
    then have "localeCompare_root (node_id a) (node_id b) \<noteq> 0"
      by (simp add: localeCompare_root_eq)
    with c Cons.prems(3) b show ?thesis
      unfolding node_compare_le localeCompare_root_less [symmetric] by auto
  qed
  with Cons show ?case
    by simp
qed

subsection \<open>The edge list and the call sites\<close>

lemma record_first_append:
  "record_first acc (xs @ ys) = record_first (record_first acc xs) ys"
  by (induction xs arbitrary: acc) simp_all

lemma key_recorded:
  assumes ka: "keys_agree st" and f: "list_all is_target_char f" and t: "list_all is_target_char t"
  shows "edge_key f t ty \<in> edgeKeys st \<longleftrightarrow>
    list_ex (same_triple \<lparr>edge_from = f, edge_to = t, edge_type = ty, edge_line = l\<rparr>) (edges st)"
proof
  assume "edge_key f t ty \<in> edgeKeys st"
  with ka obtain e where e: "e \<in> set (edges st)"
    and k: "edge_key f t ty = edge_key (edge_from e) (edge_to e) (edge_type e)"
    by (auto simp: keys_agree_def edge_key_of_def)
  from ka e have "list_all is_target_char (edge_from e)" "list_all is_target_char (edge_to e)"
    by (auto simp: keys_agree_def list_all_iff)
  with f t k have "f = edge_from e \<and> t = edge_to e \<and> ty = edge_type e"
    by (intro edge_key_inject) auto
  with e show "list_ex (same_triple \<lparr>edge_from = f, edge_to = t, edge_type = ty, edge_line = l\<rparr>)
      (edges st)"
    by (auto simp: list_ex_iff same_triple_def)
next
  assume "list_ex (same_triple \<lparr>edge_from = f, edge_to = t, edge_type = ty, edge_line = l\<rparr>)
      (edges st)"
  then obtain e where "e \<in> set (edges st)"
    and "f = edge_from e" "t = edge_to e" "ty = edge_type e"
    by (auto simp: list_ex_iff same_triple_def)
  with ka show "edge_key f t ty \<in> edgeKeys st"
    by (auto simp: keys_agree_def edge_key_of_def)
qed

lemma addEdge_record_first:
  assumes ka: "keys_agree st" and t: "list_all is_target_char t"
  shows "edges (addEdge (st\<lparr>nodes := ns\<rparr>) (currentScope st) t ty l) =
    record_first (edges st)
      [\<lparr>edge_from = currentScope st, edge_to = t, edge_type = ty, edge_line = l\<rparr>]"
proof -
  from ka have "list_all is_target_char (currentScope st)"
    by (simp add: keys_agree_def)
  from key_recorded [OF ka this t, of ty l] show ?thesis
    by (simp add: addEdge_def)
qed

lemma process_match_record_first:
  assumes ka: "keys_agree st" and sc: "scope = currentScope st"
    and sh: "m1 = ''VALUE'' \<or> m1 = ''('' \<or> (m2 = Some m1 \<and> m1 \<noteq> [] \<and> list_all is_target_char m1)"
  shows "edges (process_match n scope (m1, m2) st) =
    record_first (edges st) (site_edge n scope (m1, m2))"
proof -
  from sh consider "m1 = ''VALUE'' \<or> m1 = ''(''"
    | "m1 \<noteq> ''VALUE''" "m1 \<noteq> ''(''" "m2 = Some m1" "list_all is_target_char m1"
    by blast
  then show ?thesis
  proof cases
    case 1
    with addEdge_record_first [OF ka target_DYNAMIC_CALL] sc show ?thesis
      by (auto simp: process_match_def site_edge_def)
  next
    case 2
    with addEdge_record_first [OF ka 2(4)] sc show ?thesis
      by (simp add: process_match_def site_edge_def normalizeLabel_target)
  qed
qed

lemma fold_process_match_record_first:
  assumes "keys_agree st" and "currentScope st = scope"
    and "\<forall>(m1, m2) \<in> set ms.
      m1 = ''VALUE'' \<or> m1 = ''('' \<or> (m2 = Some m1 \<and> m1 \<noteq> [] \<and> list_all is_target_char m1)"
  shows "edges (fold (process_match n scope) ms st) =
      record_first (edges st) (concat (map (site_edge n scope) ms))
    \<and> keys_agree (fold (process_match n scope) ms st)
    \<and> currentScope (fold (process_match n scope) ms st) = scope"
  using assms
proof (induction ms arbitrary: st)
  case Nil
  then show ?case by simp
next
  case (Cons m ms)
  obtain m1 m2 where m: "m = (m1, m2)"
    by (cases m) auto
  from Cons.prems(3) m
  have sh: "m1 = ''VALUE'' \<or> m1 = ''('' \<or> (m2 = Some m1 \<and> m1 \<noteq> [] \<and> list_all is_target_char m1)"
    by auto
  from Cons.prems(2) have sc: "scope = currentScope st"
    by simp
  have e: "edges (process_match n scope m st) = record_first (edges st) (site_edge n scope m)"
    unfolding m by (rule process_match_record_first [OF Cons.prems(1) sc sh])
  have k: "keys_agree (process_match n scope m st)"
    unfolding m by (rule process_match_keys_agree [OF Cons.prems(1) sc sh])
  have c: "currentScope (process_match n scope m st) = scope"
    using Cons.prems(2) by simp
  from Cons.prems(3) have "\<forall>(m1, m2) \<in> set ms.
      m1 = ''VALUE'' \<or> m1 = ''('' \<or> (m2 = Some m1 \<and> m1 \<noteq> [] \<and> list_all is_target_char m1)"
    by simp
  from Cons.IH [OF k c this] e show ?case
    by (simp add: record_first_append)
qed

lemma process_segment_record_first:
  assumes "keys_agree st" and "currentScope st = scope"
  shows "edges (process_segment n scope segment st) =
      record_first (edges st) (concat (map (site_edge n scope) (exec_loop None (toUpperCase segment))))
    \<and> keys_agree (process_segment n scope segment st)
    \<and> currentScope (process_segment n scope segment st) = scope"
  unfolding process_segment_def
  by (rule fold_process_match_record_first [OF assms]) (auto dest: exec_loop_shape)

lemma fold_process_segment_record_first:
  assumes "keys_agree st" and "currentScope st = scope"
  shows "edges (fold (process_segment n scope) segs st) =
      record_first (edges st) (concat (map (\<lambda>segment. concat (map (site_edge n scope)
        (exec_loop None (toUpperCase segment)))) segs))
    \<and> keys_agree (fold (process_segment n scope) segs st)
    \<and> currentScope (fold (process_segment n scope) segs st) = scope"
  using assms
proof (induction segs arbitrary: st)
  case Nil
  then show ?case by simp
next
  case (Cons s segs)
  note p = process_segment_record_first [OF Cons.prems, of n s]
  from p have k: "keys_agree (process_segment n scope s st)"
    and c: "currentScope (process_segment n scope s st) = scope"
    by simp_all
  from Cons.IH [OF k c] p show ?case
    by (simp add: record_first_append)
qed

lemma processStatementBlock_record_first:
  assumes "keys_agree st" and "currentScope st = scope"
  shows "edges (processStatementBlock body n scope st) =
      record_first (edges st) (block_sites body n scope)
    \<and> keys_agree (processStatementBlock body n scope st)"
  using fold_process_segment_record_first [OF assms, of n "splitStatements body"]
  by (simp add: processStatementBlock_def block_sites_def)

lemma processStatementBlock_flag:
  "inBlockComment (processStatementBlock body n (currentScope st) st) = inBlockComment st"
  using processStatementBlock_invariant
    [of "\<lambda>s. inBlockComment s = inBlockComment st" st "currentScope st" n body]
  by simp

lemma scan_line_record_first:
  assumes ka: "keys_agree st"
  shows "edges (scan_line n raw st) =
      record_first (edges st) (line_sites n raw (inBlockComment st) (currentScope st))
    \<and> keys_agree (scan_line n raw st)
    \<and> inBlockComment (scan_line n raw st) = snd (stripComments raw (inBlockComment st))
    \<and> currentScope (scan_line n raw st) = scope_after raw (inBlockComment st) (currentScope st)"
proof -
  define st1 where "st1 = st\<lparr>inBlockComment := snd (stripComments raw (inBlockComment st))\<rparr>"
  define line where "line = collapse (fst (stripComments raw (inBlockComment st)))"
  from ka have k1: "keys_agree st1"
    by (simp add: st1_def keys_agree_def)
  have f1: "edges st1 = edges st" "currentScope st1 = currentScope st"
    "inBlockComment st1 = snd (stripComments raw (inBlockComment st))"
    by (simp_all add: st1_def)
  show ?thesis
  proof (cases "line = []")
    case True
    have "label_match [] = None"
      by (simp add: label_match_def)
    with True k1 f1 show ?thesis
      by (simp add: scan_line_def Let_def st1_def [symmetric] line_def [symmetric]
          line_sites_def scope_after_def)
  next
    case False
    show ?thesis
    proof (cases "label_match line")
      case None
      from processStatementBlock_record_first [OF k1 refl, of line n]
        processStatementBlock_flag [of line n st1]
        processStatementBlock_currentScope [of line n st1]
        None False f1
      show ?thesis
        by (simp add: scan_line_def Let_def st1_def [symmetric] line_def [symmetric]
            line_sites_def scope_after_def)
    next
      case (Some lr)
      obtain label rest where lr: "lr = (label, rest)"
        by (cases lr) auto
      define scope where "scope = normalizeLabel label"
      define st2 where
        "st2 = st1\<lparr>currentScope := scope, nodes := upsertNode (nodes st1) scope scope n Function\<rparr>"
      from label_match_ident [of line label rest] Some lr
      have l: "list_all is_label_char label"
        by simp
      from normalizeLabel_label(2) [OF l] have "list_all is_target_char scope"
        by (simp add: scope_def)
      with k1 have k2: "keys_agree st2"
        by (simp add: st2_def keys_agree_def)
      have f2: "edges st2 = edges st" "currentScope st2 = scope"
        "inBlockComment st2 = snd (stripComments raw (inBlockComment st))"
        by (simp_all add: st2_def f1)
      from processStatementBlock_record_first [OF k2 f2(2), of "collapse rest" n]
        processStatementBlock_flag [of "collapse rest" n st2]
        processStatementBlock_currentScope [of "collapse rest" n st2]
        Some lr False f2 k2
      show ?thesis
        by (simp add: scan_line_def Let_def st1_def [symmetric] line_def [symmetric]
            scope_def [symmetric] st2_def [symmetric] line_sites_def scope_after_def)
    qed
  qed
qed

lemma scan_lines_record_first:
  assumes "keys_agree st"
  shows "edges (scan_lines n ls st) =
    record_first (edges st) (call_sites n ls (inBlockComment st) (currentScope st))"
  using assms
proof (induction ls arbitrary: n st)
  case Nil
  then show ?case by simp
next
  case (Cons raw ls)
  note s = scan_line_record_first [OF Cons.prems, of n raw]
  from s have "keys_agree (scan_line n raw st)"
    by simp
  from Cons.IH [OF this, of "n + 1"] s show ?case
    by (simp add: record_first_append)
qed

lemma scan_record_first:
  "edges (scan source) = record_first [] (call_sites 1 (split_lines [] source) False ''MAIN'')"
proof -
  have "keys_agree initial"
    using target_MAIN by (simp add: initial_def keys_agree_def)
  from scan_lines_record_first [OF this, of 1 "split_lines [] source"] show ?thesis
    by (simp add: scan_def initial_def)
qed

lemma record_first_subseq: "subseq (record_first acc xs) (acc @ xs)"
proof (induction xs arbitrary: acc)
  case Nil
  then show ?case by simp
next
  case (Cons e es)
  show ?case
  proof (cases "list_ex (same_triple e) acc")
    case True
    have "subseq (acc @ es) (acc @ e # es)"
      by (rule list_emb_append_mono) auto
    with Cons [of acc] True show ?thesis
      by (auto intro: subseq_order.order_trans)
  next
    case False
    with Cons [of "acc @ [e]"] show ?thesis
      by simp
  qed
qed

lemma record_first_keeps: "set acc \<subseteq> set (record_first acc xs)"
proof (induction xs arbitrary: acc)
  case Nil
  then show ?case by simp
next
  case (Cons e es)
  from Cons [of acc] Cons [of "acc @ [e]"] show ?case
    by auto
qed

lemma record_first_covers:
  "x \<in> set xs \<Longrightarrow> \<exists>e \<in> set (record_first acc xs). same_triple x e"
proof (induction xs arbitrary: acc)
  case Nil
  then show ?case by simp
next
  case (Cons a as)
  show ?case
  proof (cases "x = a")
    case False
    with Cons show ?thesis
      by simp
  next
    case True
    show ?thesis
    proof (cases "list_ex (same_triple a) acc")
      case True
      then obtain e where "e \<in> set acc" "same_triple a e"
        by (auto simp: list_ex_iff)
      with record_first_keeps [of acc as] \<open>x = a\<close> True show ?thesis
        by auto
    next
      case False
      have "same_triple a a"
        by (simp add: same_triple_def)
      with record_first_keeps [of "acc @ [a]" as] \<open>x = a\<close> False show ?thesis
        by auto
    qed
  qed
qed

text \<open>
  C8, as the code has it. The node list of every graph is the node \<open>MAIN\<close> followed by
  the other nodes of the node map: their ids are distinct, none is \<open>MAIN\<close>, and all are
  made of characters of the class \<open>[A-Z0-9_.$!?@#]\<close>. Each node is before every node of
  a higher line, and the nodes of one line are in the order that \<open>localeCompare\<close> gives
  their ids, for every total and transitive order it may be. With the root collation the
  ids of one line ascend strictly as the lists of the ranks of their characters, where the
  underscore, the marks \<open>!\<close>, \<open>?\<close>, \<open>.\<close>, \<open>@\<close>, \<open>#\<close>, \<open>$\<close>, the digits and the letters have
  the ranks 0 to 42 in this order: an order of ids that is not the order of their code
  units. The edge list is the list of the call sites in scanning order, each triple of
  source, target and type kept where it occurs first: it is a subsequence of the sites,
  every site has its triple in it, scanning more lines only appends to it, and the line
  numbers along it never decrease.
\<close>

theorem nodes_sorted_edges_in_discovery_order:
  "((\<forall>x y. lc x y \<le> 0 \<or> lc y x \<le> 0)
      \<and> (\<forall>x y z. lc x y \<le> 0 \<longrightarrow> lc y z \<le> 0 \<longrightarrow> lc x z \<le> 0) \<longrightarrow>
      nodes (parseRexxControlFlow lc source) =
        main_node # tl (nodes (parseRexxControlFlow lc source))
      \<and> filter (\<lambda>x. node_id x = ''MAIN'') (tl (nodes (parseRexxControlFlow lc source))) = []
      \<and> sorted_wrt (\<lambda>a b. node_line a < node_line b \<or>
            (node_line a = node_line b \<and> lc (node_id a) (node_id b) \<le> 0))
          (tl (nodes (parseRexxControlFlow lc source))))
   \<and> mset (nodes (parseRexxControlFlow lc source)) = mset (nodes (scan source))
   \<and> distinct (map node_id (nodes (parseRexxControlFlow lc source)))
   \<and> list_all (\<lambda>x. list_all is_target_char (node_id x)) (nodes (parseRexxControlFlow lc source))
   \<and> nodes (parseRexxControlFlow localeCompare_root source) =
        main_node # tl (nodes (parseRexxControlFlow localeCompare_root source))
   \<and> sorted_wrt (\<lambda>a b. node_line a < node_line b \<or>
          (node_line a = node_line b \<and>
           map collation_rank (node_id a) < map collation_rank (node_id b)))
        (tl (nodes (parseRexxControlFlow localeCompare_root source)))
   \<and> (localeCompare_root ia ib < 0) = (map collation_rank ia < map collation_rank ib)
   \<and> (localeCompare_root ia ib = 0) = (ia = ib)
   \<and> map collation_rank (''_!?.@#$'' @ digits @ upper_letters) = [0 ..< 43]
   \<and> edges (parseRexxControlFlow lc source) = edges (scan source)
   \<and> edges (parseRexxControlFlow lc source) =
        record_first [] (call_sites 1 (split_lines [] source) False ''MAIN'')
   \<and> subseq (edges (parseRexxControlFlow lc source))
        (call_sites 1 (split_lines [] source) False ''MAIN'')
   \<and> list_all (\<lambda>e. list_ex (same_triple e) (edges (parseRexxControlFlow lc source)))
        (call_sites 1 (split_lines [] source) False ''MAIN'')
   \<and> prefix (edges (scan_lines n ls1 st)) (edges (scan_lines n (ls1 @ ls2) st))
   \<and> sorted (map edge_line (edges (parseRexxControlFlow lc source)))"
proof -
  have order: "ns = main_node # tl ns
      \<and> filter (\<lambda>x. node_id x = ''MAIN'') (tl ns) = []
      \<and> sorted_wrt (\<lambda>a b. node_compare c a b \<le> 0) (tl ns)"
    if tot: "\<forall>x y. c x y \<le> 0 \<or> c y x \<le> 0"
      and trans: "\<forall>x y z. c x y \<le> 0 \<longrightarrow> c y z \<le> 0 \<longrightarrow> c x z \<le> 0"
      and ns: "ns = nodes (parseRexxControlFlow c source)"
    for c ns
  proof -
    have s: "sorted_wrt (\<lambda>a b. node_compare c a b \<le> 0) ns"
      unfolding ns parseRexxControlFlow_def
      using node_compare_total [OF tot] node_compare_trans [OF trans]
      by (simp add: sorted_sort_by)
    have f: "filter (\<lambda>x. node_id x = ''MAIN'') ns = [main_node]"
      using filter_sort_by_single [OF scan_main_node, of "node_compare c" source]
      by (simp add: ns parseRexxControlFlow_def)
    from main_first [OF s f] have h: "ns = main_node # tl ns"
      and t: "filter (\<lambda>x. node_id x = ''MAIN'') (tl ns) = []"
      by simp_all
    from s h have "sorted_wrt (\<lambda>a b. node_compare c a b \<le> 0) (tl ns)"
      by (metis sorted_wrt.simps(2))
    with h t show ?thesis
      by simp
  qed
  have ms: "mset (nodes (parseRexxControlFlow c source)) = mset (nodes (scan source))" for c
    by (simp add: parseRexxControlFlow_def)
  have d: "distinct (map node_id (nodes (parseRexxControlFlow c source)))" for c
  proof -
    from ms [of c]
    have "mset (map node_id (nodes (parseRexxControlFlow c source))) =
        mset (map node_id (nodes (scan source)))"
      by simp
    then have "distinct (map node_id (nodes (parseRexxControlFlow c source))) =
        distinct (map node_id (nodes (scan source)))"
      by (rule mset_eq_imp_distinct_iff)
    moreover have "distinct (map node_id (nodes (scan source)))"
      using scan_dynamic_shared [of source] by (simp add: dynamic_shared_def)
    ultimately show ?thesis
      by (simp only:)
  qed
  have cl: "list_all (\<lambda>x. list_all is_target_char (node_id x))
      (nodes (parseRexxControlFlow lc source))"
    using scan_ids_class [of source] by (simp add: list_all_iff parseRexxControlFlow_def)
  have gen: "nodes (parseRexxControlFlow lc source) =
        main_node # tl (nodes (parseRexxControlFlow lc source))
      \<and> filter (\<lambda>x. node_id x = ''MAIN'') (tl (nodes (parseRexxControlFlow lc source))) = []
      \<and> sorted_wrt (\<lambda>a b. node_line a < node_line b \<or>
            (node_line a = node_line b \<and> lc (node_id a) (node_id b) \<le> 0))
          (tl (nodes (parseRexxControlFlow lc source)))"
    if "(\<forall>x y. lc x y \<le> 0 \<or> lc y x \<le> 0)
      \<and> (\<forall>x y z. lc x y \<le> 0 \<longrightarrow> lc y z \<le> 0 \<longrightarrow> lc x z \<le> 0)"
  proof -
    let ?ns = "nodes (parseRexxControlFlow lc source)"
    from that have tot: "\<forall>x y. lc x y \<le> 0 \<or> lc y x \<le> 0"
      and trans: "\<forall>x y z. lc x y \<le> 0 \<longrightarrow> lc y z \<le> 0 \<longrightarrow> lc x z \<le> 0"
      by simp_all
    note o = order [OF tot trans refl]
    from o have nm: "\<forall>x \<in> set (tl ?ns). node_id x \<noteq> ''MAIN''"
      by (simp add: filter_empty_conv)
    from o have sw: "sorted_wrt (\<lambda>a b. node_compare lc a b \<le> 0) (tl ?ns)"
      by simp
    have "sorted_wrt (\<lambda>a b. node_line a < node_line b \<or>
          (node_line a = node_line b \<and> lc (node_id a) (node_id b) \<le> 0)) (tl ?ns)"
    proof (rule sorted_wrt_mono_rel [OF _ sw])
      fix x y
      assume "x \<in> set (tl ?ns)" and "y \<in> set (tl ?ns)" and "node_compare lc x y \<le> 0"
      with nm show "node_line x < node_line y \<or>
          (node_line x = node_line y \<and> lc (node_id x) (node_id y) \<le> 0)"
        by (auto simp: node_compare_le)
    qed
    with o show ?thesis
      by simp
  qed
  let ?rs = "nodes (parseRexxControlFlow localeCompare_root source)"
  note r = order [OF localeCompare_root_total localeCompare_root_trans refl]
  from r have rh: "?rs = main_node # tl ?rs"
    by simp
  have rs: "sorted_wrt (\<lambda>a b. node_line a < node_line b \<or>
          (node_line a = node_line b \<and>
           map collation_rank (node_id a) < map collation_rank (node_id b))) (tl ?rs)"
  proof (rule sorted_wrt_strict)
    from r show "sorted_wrt (\<lambda>a b. node_compare localeCompare_root a b \<le> 0) (tl ?rs)"
      by simp
    from d [of localeCompare_root] show "distinct (map node_id (tl ?rs))"
      by (simp add: distinct_tl map_tl)
    from r show "\<forall>x \<in> set (tl ?rs). node_id x \<noteq> ''MAIN''"
      by (simp add: filter_empty_conv)
  qed
  have e: "edges (parseRexxControlFlow lc source) = edges (scan source)"
    by (simp add: parseRexxControlFlow_def)
  have rf: "edges (parseRexxControlFlow lc source) =
        record_first [] (call_sites 1 (split_lines [] source) False ''MAIN'')"
    unfolding e by (rule scan_record_first)
  have sq: "subseq (edges (parseRexxControlFlow lc source))
        (call_sites 1 (split_lines [] source) False ''MAIN'')"
    unfolding rf using record_first_subseq [of "[]"] by simp
  have cv: "list_all (\<lambda>e. list_ex (same_triple e) (edges (parseRexxControlFlow lc source)))
        (call_sites 1 (split_lines [] source) False ''MAIN'')"
    unfolding rf list_all_iff list_ex_iff by (auto dest: record_first_covers)
  have pf: "prefix (edges (scan_lines n ls1 st)) (edges (scan_lines n (ls1 @ ls2) st))"
    unfolding scan_lines_append by (rule scan_lines_edges_prefix)
  have "sorted (map edge_line (edges (scan_lines 1 (split_lines [] source) initial)))"
    by (rule scan_lines_edge_lines) (simp_all add: initial_def)
  then have sl: "sorted (map edge_line (edges (parseRexxControlFlow lc source)))"
    by (simp add: parseRexxControlFlow_def scan_def)
  note a = localeCompare_root_less [of ia ib] localeCompare_root_eq [of ia ib] ranks_of_class
  from gen have g: "(\<forall>x y. lc x y \<le> 0 \<or> lc y x \<le> 0)
      \<and> (\<forall>x y z. lc x y \<le> 0 \<longrightarrow> lc y z \<le> 0 \<longrightarrow> lc x z \<le> 0) \<longrightarrow>
      nodes (parseRexxControlFlow lc source) =
        main_node # tl (nodes (parseRexxControlFlow lc source))
      \<and> filter (\<lambda>x. node_id x = ''MAIN'') (tl (nodes (parseRexxControlFlow lc source))) = []
      \<and> sorted_wrt (\<lambda>a b. node_line a < node_line b \<or>
            (node_line a = node_line b \<and> lc (node_id a) (node_id b) \<le> 0))
          (tl (nodes (parseRexxControlFlow lc source)))"
    by (rule impI)
  from g ms [of lc] d [of lc] cl rh rs a e rf sq cv pf sl show ?thesis
    by (intro conjI)
qed

theorem nodes_sorted_edges_in_discovery_order_witness:
  "nodes (parseRexxControlFlow localeCompare_root
       ''X: CALL B; CALL _A; CALL A\<newline>CALL (Y); CALL A; CALL B'') =
     [main_node,
      \<lparr>node_id = ''_A'', node_label = ''_A'', node_line = 1, node_kind = Function\<rparr>,
      \<lparr>node_id = ''A'', node_label = ''A'', node_line = 1, node_kind = Function\<rparr>,
      \<lparr>node_id = ''B'', node_label = ''B'', node_line = 1, node_kind = Function\<rparr>,
      \<lparr>node_id = ''X'', node_label = ''X'', node_line = 1, node_kind = Function\<rparr>,
      \<lparr>node_id = ''DYNAMIC_CALL'', node_label = ''DYNAMIC_CALL'', node_line = 2,
        node_kind = Dynamic\<rparr>]
   \<and> sorted_wrt (\<lambda>a b. node_line a < node_line b \<or>
          (node_line a = node_line b \<and> localeCompare_root (node_id a) (node_id b) \<le> 0))
        (tl (nodes (parseRexxControlFlow localeCompare_root
          ''X: CALL B; CALL _A; CALL A\<newline>CALL (Y); CALL A; CALL B'')))
   \<and> call_sites 1 (split_lines [] ''X: CALL B; CALL _A; CALL A\<newline>CALL (Y); CALL A; CALL B'')
        False ''MAIN'' =
     [\<lparr>edge_from = ''X'', edge_to = ''B'', edge_type = ''calls'', edge_line = 1\<rparr>,
      \<lparr>edge_from = ''X'', edge_to = ''_A'', edge_type = ''calls'', edge_line = 1\<rparr>,
      \<lparr>edge_from = ''X'', edge_to = ''A'', edge_type = ''calls'', edge_line = 1\<rparr>,
      \<lparr>edge_from = ''X'', edge_to = ''DYNAMIC_CALL'', edge_type = ''calls-dynamic'',
        edge_line = 2\<rparr>,
      \<lparr>edge_from = ''X'', edge_to = ''A'', edge_type = ''calls'', edge_line = 2\<rparr>,
      \<lparr>edge_from = ''X'', edge_to = ''B'', edge_type = ''calls'', edge_line = 2\<rparr>]
   \<and> edges (parseRexxControlFlow localeCompare_root
        ''X: CALL B; CALL _A; CALL A\<newline>CALL (Y); CALL A; CALL B'') =
     [\<lparr>edge_from = ''X'', edge_to = ''B'', edge_type = ''calls'', edge_line = 1\<rparr>,
      \<lparr>edge_from = ''X'', edge_to = ''_A'', edge_type = ''calls'', edge_line = 1\<rparr>,
      \<lparr>edge_from = ''X'', edge_to = ''A'', edge_type = ''calls'', edge_line = 1\<rparr>,
      \<lparr>edge_from = ''X'', edge_to = ''DYNAMIC_CALL'', edge_type = ''calls-dynamic'',
        edge_line = 2\<rparr>]
   \<and> edges (parseRexxControlFlow localeCompare_root
        ''X: CALL B; CALL _A; CALL A\<newline>CALL (Y); CALL A; CALL B'') =
     record_first []
       (call_sites 1 (split_lines [] ''X: CALL B; CALL _A; CALL A\<newline>CALL (Y); CALL A; CALL B'')
         False ''MAIN'')"
proof -
  note c = nodes_sorted_edges_in_discovery_order [where lc = localeCompare_root
      and source = "''X: CALL B; CALL _A; CALL A\<newline>CALL (Y); CALL A; CALL B''"]
  have h: "(\<forall>x y. localeCompare_root x y \<le> 0 \<or> localeCompare_root y x \<le> 0)
      \<and> (\<forall>x y z. localeCompare_root x y \<le> 0 \<longrightarrow> localeCompare_root y z \<le> 0 \<longrightarrow>
            localeCompare_root x z \<le> 0)"
    using localeCompare_root_total localeCompare_root_trans by (rule conjI)
  note g = c [THEN conjunct1, THEN mp, OF h]
  have v: "nodes (parseRexxControlFlow localeCompare_root
       ''X: CALL B; CALL _A; CALL A\<newline>CALL (Y); CALL A; CALL B'') =
     [main_node,
      \<lparr>node_id = ''_A'', node_label = ''_A'', node_line = 1, node_kind = Function\<rparr>,
      \<lparr>node_id = ''A'', node_label = ''A'', node_line = 1, node_kind = Function\<rparr>,
      \<lparr>node_id = ''B'', node_label = ''B'', node_line = 1, node_kind = Function\<rparr>,
      \<lparr>node_id = ''X'', node_label = ''X'', node_line = 1, node_kind = Function\<rparr>,
      \<lparr>node_id = ''DYNAMIC_CALL'', node_label = ''DYNAMIC_CALL'', node_line = 2,
        node_kind = Dynamic\<rparr>]"
    by code_simp
  have s: "call_sites 1 (split_lines [] ''X: CALL B; CALL _A; CALL A\<newline>CALL (Y); CALL A; CALL B'')
        False ''MAIN'' =
     [\<lparr>edge_from = ''X'', edge_to = ''B'', edge_type = ''calls'', edge_line = 1\<rparr>,
      \<lparr>edge_from = ''X'', edge_to = ''_A'', edge_type = ''calls'', edge_line = 1\<rparr>,
      \<lparr>edge_from = ''X'', edge_to = ''A'', edge_type = ''calls'', edge_line = 1\<rparr>,
      \<lparr>edge_from = ''X'', edge_to = ''DYNAMIC_CALL'', edge_type = ''calls-dynamic'',
        edge_line = 2\<rparr>,
      \<lparr>edge_from = ''X'', edge_to = ''A'', edge_type = ''calls'', edge_line = 2\<rparr>,
      \<lparr>edge_from = ''X'', edge_to = ''B'', edge_type = ''calls'', edge_line = 2\<rparr>]"
    by code_simp
  have e: "edges (parseRexxControlFlow localeCompare_root
        ''X: CALL B; CALL _A; CALL A\<newline>CALL (Y); CALL A; CALL B'') =
     [\<lparr>edge_from = ''X'', edge_to = ''B'', edge_type = ''calls'', edge_line = 1\<rparr>,
      \<lparr>edge_from = ''X'', edge_to = ''_A'', edge_type = ''calls'', edge_line = 1\<rparr>,
      \<lparr>edge_from = ''X'', edge_to = ''A'', edge_type = ''calls'', edge_line = 1\<rparr>,
      \<lparr>edge_from = ''X'', edge_to = ''DYNAMIC_CALL'', edge_type = ''calls-dynamic'',
        edge_line = 2\<rparr>]"
    by code_simp
  note r = c [THEN conjunct2, THEN conjunct2, THEN conjunct2, THEN conjunct2,
      THEN conjunct2, THEN conjunct2, THEN conjunct2, THEN conjunct2, THEN conjunct2,
      THEN conjunct2, THEN conjunct1]
  from v g [THEN conjunct2, THEN conjunct2] s e r show ?thesis
    by (intro conjI)
qed

text \<open>
  In the source \<open>CALL A; CALL _A\<close> the nodes \<open>A\<close> and \<open>_A\<close> are both of line 1. The id \<open>A\<close>
  is below \<open>_A\<close> in the order of the code units, yet the node \<open>_A\<close> comes first: the
  collation puts the underscore before every letter.
\<close>

theorem ties_in_collation_order_counterexample:
  "nodes (parseRexxControlFlow localeCompare_root ''CALL A; CALL _A'') =
     [main_node,
      \<lparr>node_id = ''_A'', node_label = ''_A'', node_line = 1, node_kind = Function\<rparr>,
      \<lparr>node_id = ''A'', node_label = ''A'', node_line = 1, node_kind = Function\<rparr>]
   \<and> ''A'' < ''_A''"
  by code_simp

subsection \<open>Serialization\<close>

lemma fold_push: "fold (\<lambda>x out. out @ [f x]) xs out = out @ map f xs"
  by (induction xs arbitrary: out) simp_all

lemma escapeDot_chars:
  "escapeDot v = concat (map (\<lambda>c. if c = CHR 0x5C then [CHR 0x5C, CHR 0x5C]
     else if c = CHR 0x22 then [CHR 0x5C, CHR 0x22] else [c]) v)"
  by (induction v) (simp_all add: escapeDot_def replace_char_def)

lemma join_with_lines:
  "join_with sep (x # xs) = x @ concat (map (\<lambda>y. sep @ y) xs)"
  by (induction xs arbitrary: x) simp_all

text \<open>
  C9. For every graph, \<open>toDot\<close> is the header line, the \<open>rankdir\<close> line, one line for each
  node in the order of the node list, one line for each edge in the order of the edge
  list and the closing brace, joined by line feeds. Every quoted field is escaped
  character by character: a backslash becomes two backslashes, a double quote becomes a
  backslash and a double quote, and any other character stays, which is what replacing
  the backslashes first and the quotes second gives. The graph of the source \<open>CALL A\<close>,
  \<open>A: RETURN\<close> is serialized as the six lines below.
\<close>

theorem toDot_format:
  \<open>toDot g =
     ''digraph REXXControlFlow {'' @ ''\<newline>  rankdir=LR;''
     @ concat (map (\<lambda>n. ''\<newline>  "'' @ escapeDot (node_id n) @ ''" [label="'' @
          escapeDot (node_label n) @ ''"];'') (nodes g))
     @ concat (map (\<lambda>e. ''\<newline>  "'' @ escapeDot (edge_from e) @ ''" -> "'' @
          escapeDot (edge_to e) @ ''" [label="'' @ escapeDot (edge_type e) @ ''"];'') (edges g))
     @ ''\<newline>}''
   \<and> escapeDot v = concat (map (\<lambda>c. if c = CHR 0x5C then [CHR 0x5C, CHR 0x5C]
        else if c = CHR 0x22 then [CHR 0x5C, CHR 0x22] else [c]) v)
   \<and> escapeDot v = replace_char (CHR 0x22) [CHR 0x5C, CHR 0x22]
        (replace_char (CHR 0x5C) [CHR 0x5C, CHR 0x5C] v)
   \<and> toDot (parseRexxControlFlow lc ''CALL A\<newline>A: RETURN'') =
       ''digraph REXXControlFlow {\<newline>  rankdir=LR;\<newline>  "MAIN" [label="MAIN"];\<newline>  "A" [label="A"];\<newline>  "MAIN" -> "A" [label="calls"];\<newline>}''\<close>
proof (intro conjI)
  show \<open>toDot g =
     ''digraph REXXControlFlow {'' @ ''\<newline>  rankdir=LR;''
     @ concat (map (\<lambda>n. ''\<newline>  "'' @ escapeDot (node_id n) @ ''" [label="'' @
          escapeDot (node_label n) @ ''"];'') (nodes g))
     @ concat (map (\<lambda>e. ''\<newline>  "'' @ escapeDot (edge_from e) @ ''" -> "'' @
          escapeDot (edge_to e) @ ''" [label="'' @ escapeDot (edge_type e) @ ''"];'') (edges g))
     @ ''\<newline>}''\<close>
    by (simp add: toDot_def Let_def fold_push join_with_lines node_decl_def edge_decl_def
        comp_def)
next
  show "escapeDot v = concat (map (\<lambda>c. if c = CHR 0x5C then [CHR 0x5C, CHR 0x5C]
        else if c = CHR 0x22 then [CHR 0x5C, CHR 0x22] else [c]) v)"
    by (rule escapeDot_chars)
next
  show "escapeDot v = replace_char (CHR 0x22) [CHR 0x5C, CHR 0x22]
        (replace_char (CHR 0x5C) [CHR 0x5C, CHR 0x5C] v)"
    by (simp add: escapeDot_def)
next
  show \<open>toDot (parseRexxControlFlow lc ''CALL A\<newline>A: RETURN'') =
       ''digraph REXXControlFlow {\<newline>  rankdir=LR;\<newline>  "MAIN" [label="MAIN"];\<newline>  "A" [label="A"];\<newline>  "MAIN" -> "A" [label="calls"];\<newline>}''\<close>
    by code_simp
qed

subsection \<open>A call inside a literal\<close>

lemma split_lines_single: "CHR 0x0A \<notin> set s \<Longrightarrow> split_lines cur s = [cur @ s]"
  by (induction cur s rule: split_lines.induct) auto

lemma stripComments_loop_no_slash:
  "CHR ''/'' \<notin> set s \<Longrightarrow> stripComments_loop s False res = (res @ s, False)"
  by (induction s False res rule: stripComments_loop.induct) auto

lemma replace_ws_runs_no_space:
  "\<forall>x \<in> set a. \<not> is_space x \<Longrightarrow> replace_ws_runs (a @ b) = a @ replace_ws_runs b"
  by (induction a) simp_all

lemma replace_ws_runs_space:
  "(case b of [] \<Rightarrow> True | c # _ \<Rightarrow> \<not> is_space c) \<Longrightarrow>
     replace_ws_runs (CHR 0x20 # b) = CHR 0x20 # replace_ws_runs b"
  by (cases b) (simp_all add: is_space_def)

lemma trim_ends:
  assumes "s \<noteq> []" and "\<not> is_space (hd s)" and "\<not> is_space (last s)"
  shows "trim s = s"
proof -
  from assms have "dropWhile is_space s = s"
    by (cases s) simp_all
  moreover from assms have "dropWhile is_space (rev s) = rev s"
    by (cases "rev s") (simp_all add: last_rev [symmetric] hd_rev)
  ultimately show ?thesis
    by (simp add: trim_def)
qed

lemma target_class_misc:
  assumes "list_all is_target_char tok"
  shows "CHR 0x0A \<notin> set tok" "CHR ''/'' \<notin> set tok" "CHR 0x27 \<notin> set tok" "CHR 0x22 \<notin> set tok"
    "CHR '';'' \<notin> set tok" "\<forall>x \<in> set tok. \<not> is_space x"
proof -
  have "\<forall>c \<in> set (upper_letters @ digits @ ''_.$!?@#'').
      c \<noteq> CHR 0x0A \<and> c \<noteq> CHR ''/'' \<and> c \<noteq> CHR 0x27 \<and> c \<noteq> CHR 0x22 \<and> c \<noteq> CHR '';''"
    by code_simp
  then have "c \<noteq> CHR 0x0A \<and> c \<noteq> CHR ''/'' \<and> c \<noteq> CHR 0x27 \<and> c \<noteq> CHR 0x22 \<and> c \<noteq> CHR '';''"
    if "is_target_char c" for c
    using that unfolding is_target_char_def by blast
  with assms show "CHR 0x0A \<notin> set tok" "CHR ''/'' \<notin> set tok" "CHR 0x27 \<notin> set tok"
    "CHR 0x22 \<notin> set tok" "CHR '';'' \<notin> set tok"
    by (auto simp: list_all_iff)
  from assms show "\<forall>x \<in> set tok. \<not> is_space x"
    by (auto simp: list_all_iff target_not_space)
qed

lemma toUpperCase_append: "toUpperCase (a @ b) = toUpperCase a @ toUpperCase b"
  by (simp add: toUpperCase_def)

lemma toUpperCase_target: "list_all is_target_char t \<Longrightarrow> toUpperCase t = t"
  unfolding toUpperCase_def by (induction t) (simp_all add: upper_char_target)

lemma say_call_in_literal:
  assumes q: "q = CHR 0x27 \<or> q = CHR 0x22"
    and tok: "tok \<noteq> []" "list_all is_target_char tok"
    and v: "case strip_prefix ''VALUE'' (tok @ [q]) of None \<Rightarrow> True | Some r2 \<Rightarrow> starts_word r2"
    and n: "tok \<noteq> ''ON''" "tok \<noteq> ''OFF''"
  shows "scan (''SAY '' @ q # ''CALL '' @ tok @ [q]) =
    addEdge (initial\<lparr>nodes := upsertNode (nodes initial) tok tok 1 Function\<rparr>)
      ''MAIN'' tok ''calls'' 1"
proof -
  define line where "line = ''SAY '' @ q # ''CALL '' @ tok @ [q]"
  note tc = target_class_misc [OF tok(2)]
  have qs: "\<not> is_space q" "\<not> is_word q" "\<not> is_target_char q" "q \<noteq> CHR '':''" "q \<noteq> CHR '';''"
    "upper_char q = [q]"
    using q by (auto; code_simp)+
  have l1: "split_lines [] line = [line]"
    using q tc(1) split_lines_single [of line "[]"] by (auto simp: line_def)
  have l2: "stripComments line False = (line, False)"
    using q tc(2) stripComments_loop_no_slash [of line "[]"]
    by (auto simp: line_def stripComments_def)
  have "replace_ws_runs (tok @ [q]) = tok @ [q]"
    using tc(6) qs(1) by (simp add: replace_ws_runs_no_space)
  then have "replace_ws_runs (''CALL'' @ CHR 0x20 # tok @ [q]) = ''CALL'' @ CHR 0x20 # tok @ [q]"
    using tok tc(6) by (cases tok) (simp_all add: is_space_def replace_ws_runs_space)
  then have "replace_ws_runs line = line"
    unfolding line_def using qs(1) by (simp add: is_space_def)
  moreover have "trim line = line"
    by (rule trim_ends) (simp_all add: line_def qs(1), simp add: is_space_def)
  ultimately have l3: "collapse line = line"
    by (simp add: collapse_def)
  have l4: "label_match line = None"
    using qs by (simp add: line_def label_match_def is_label_char_def upper_letters_def
        lower_letters_def digits_def is_space_def)
  have "splitStatements_loop line [] None [] =
      splitStatements_loop (q # (''CALL '' @ tok) @ q # []) ''SAY '' None []"
    using q by (auto simp: line_def)
  also have "\<dots> = splitStatements_loop ((''CALL '' @ tok) @ q # []) (''SAY '' @ [q]) (Some q) []"
    using q by auto
  also have "\<dots> = splitStatements_loop (q # []) ((''SAY '' @ [q]) @ ''CALL '' @ tok) (Some q) []"
    using q tc(3,4) by (intro splitStatements_loop_literal) auto
  also have "\<dots> = [line]"
    using l3 by (simp add: line_def Let_def)
  finally have l5: "splitStatements line = [line]"
    by (simp add: splitStatements_def)
  have "toUpperCase ''SAY '' = ''SAY ''" "toUpperCase ''CALL '' = ''CALL ''"
    by code_simp+
  then have l6: "toUpperCase line = line"
    using qs(6) toUpperCase_target [OF tok(2)]
    by (simp add: line_def toUpperCase_def)
  have "\<not> sublist ''CALL'' ((''SAY '' @ [q]) @ ''CAL'')"
    using q by (auto; code_simp)
  then have "exec_loop None ((''SAY '' @ [q]) @ ''CALL'' @ '' '' @ tok @ [q]) =
      (tok, Some tok) # exec_loop (Some (last tok)) [q]"
    using tok v qs by (intro exec_loop_call_after_text) (simp_all add: space_class)
  moreover have "exec_loop (Some (last tok)) [q] = []"
    using q by (auto simp: call_at_def strip_prefix_def)
  ultimately have l7: "exec_loop None line = [(tok, Some tok)]"
    by (simp add: line_def)
  have "tok \<noteq> ''VALUE''"
  proof
    assume "tok = ''VALUE''"
    then have "strip_prefix ''VALUE'' (tok @ [q]) = Some [q]"
      by (simp only: strip_prefix_append)
    with v qs(2) show False
      by (simp add: starts_word_def)
  qed
  moreover have "tok \<noteq> ''(''"
    using tok(2) paren_class by auto
  ultimately have l8: "process_match k ''MAIN'' (tok, Some tok) st =
      addEdge (st\<lparr>nodes := upsertNode (nodes st) tok tok k Function\<rparr>) ''MAIN'' tok ''calls'' k"
    for st k
    using n by (simp add: process_match_def normalizeLabel_target [OF tok(2)])
  have i: "inBlockComment initial = False" "currentScope initial = ''MAIN''"
    "initial\<lparr>inBlockComment := False\<rparr> = initial"
    by (simp_all add: initial_def)
  have "line \<noteq> []"
    by (simp add: line_def)
  then have "scan_line 1 line initial =
      addEdge (initial\<lparr>nodes := upsertNode (nodes initial) tok tok 1 Function\<rparr>)
        ''MAIN'' tok ''calls'' 1"
    by (simp add: scan_line_def i l2 l3 l4 processStatementBlock_def l5
        process_segment_def l6 l7 l8 Let_def del: One_nat_def)
  then have "scan line = addEdge (initial\<lparr>nodes := upsertNode (nodes initial) tok tok 1 Function\<rparr>)
      ''MAIN'' tok ''calls'' 1"
    unfolding scan_def l1 by simp
  then show ?thesis
    by (simp only: line_def)
qed

text \<open>
  C10, as the code has it. The call pattern is run over the whole uppercased statement and
  knows nothing of quotes: a quote character is an ordinary character that is in no class
  of the pattern. So a call of a name that stands inside a string literal is extracted as
  outside one: for either quote character and every name, the one-line source \<open>SAY\<close>
  followed by the literal \<open>CALL name\<close> gives the node of the name and the edge from \<open>MAIN\<close>
  to it; and in any statement, after any text in which the keyword does not begin and
  which ends in a literal that a quote has opened, the call that follows is found and has
  its edge in the graph. The one-line source \<open>SAY 'CALL X'\<close> gives the node \<open>X\<close> and the
  edge from \<open>MAIN\<close> to \<open>X\<close> of type \<open>calls\<close>. A keyword in a literal that no name, \<open>VALUE\<close>
  or parenthesis follows is no match, as outside a literal.
\<close>

theorem call_inside_literal_is_extracted:
  \<open>((q = CHR 0x27 \<or> q = CHR 0x22) \<and> tok \<noteq> [] \<and> list_all is_target_char tok
       \<and> (case strip_prefix ''VALUE'' (tok @ [q]) of None \<Rightarrow> True | Some r2 \<Rightarrow> starts_word r2)
       \<and> tok \<noteq> ''ON'' \<and> tok \<noteq> ''OFF'' \<and> tok \<noteq> ''MAIN'' \<longrightarrow>
      parseRexxControlFlow lc (''SAY '' @ q # ''CALL '' @ tok @ [q]) =
        \<lparr>nodes = [main_node,
           \<lparr>node_id = tok, node_label = tok, node_line = 1, node_kind = Function\<rparr>],
         edges = [\<lparr>edge_from = ''MAIN'', edge_to = tok, edge_type = ''calls'', edge_line = 1\<rparr>]\<rparr>)
   \<and> ((q = CHR 0x27 \<or> q = CHR 0x22) \<and> \<not> sublist ''CALL'' (a @ q # b @ ''CAL'')
        \<and> \<not> is_word (last (q # b)) \<and> list_all is_space ws
        \<and> tok \<noteq> [] \<and> list_all is_target_char tok \<and> (ws = [] \<longrightarrow> \<not> is_word (hd tok))
        \<and> (case r of [] \<Rightarrow> True | c # _ \<Rightarrow> \<not> is_target_char c)
        \<and> (case strip_prefix ''VALUE'' (tok @ r) of None \<Rightarrow> True | Some r2 \<Rightarrow> starts_word r2) \<longrightarrow>
        exec_loop None (a @ q # b @ ''CALL'' @ ws @ tok @ r) =
          (tok, Some tok) # exec_loop (Some (last tok)) r)
   \<and> (keys_agree st \<and> currentScope st = scope
        \<and> toUpperCase segment = a @ q # b @ ''CALL'' @ ws @ tok @ r
        \<and> (q = CHR 0x27 \<or> q = CHR 0x22) \<and> \<not> sublist ''CALL'' (a @ q # b @ ''CAL'')
        \<and> \<not> is_word (last (q # b)) \<and> list_all is_space ws
        \<and> tok \<noteq> [] \<and> list_all is_target_char tok \<and> (ws = [] \<longrightarrow> \<not> is_word (hd tok))
        \<and> (case r of [] \<Rightarrow> True | c # _ \<Rightarrow> \<not> is_target_char c)
        \<and> (case strip_prefix ''VALUE'' (tok @ r) of None \<Rightarrow> True | Some r2 \<Rightarrow> starts_word r2)
        \<and> tok \<noteq> ''ON'' \<and> tok \<noteq> ''OFF'' \<longrightarrow>
        (scope, tok, ''calls'') \<in> (\<lambda>e. (edge_from e, edge_to e, edge_type e)) `
          set (edges (process_segment n scope segment st)))
   \<and> parseRexxControlFlow lc (''SAY 'CALL X'' @ [CHR 0x27]) =
     \<lparr>nodes = [main_node,
        \<lparr>node_id = ''X'', node_label = ''X'', node_line = 1, node_kind = Function\<rparr>],
      edges = [\<lparr>edge_from = ''MAIN'', edge_to = ''X'', edge_type = ''calls'', edge_line = 1\<rparr>]\<rparr>\<close>
proof (intro conjI impI)
  assume a: "(q = CHR 0x27 \<or> q = CHR 0x22) \<and> tok \<noteq> [] \<and> list_all is_target_char tok
       \<and> (case strip_prefix ''VALUE'' (tok @ [q]) of None \<Rightarrow> True | Some r2 \<Rightarrow> starts_word r2)
       \<and> tok \<noteq> ''ON'' \<and> tok \<noteq> ''OFF'' \<and> tok \<noteq> ''MAIN''"
  then have "scan (''SAY '' @ q # ''CALL '' @ tok @ [q]) =
      addEdge (initial\<lparr>nodes := upsertNode (nodes initial) tok tok 1 Function\<rparr>)
        ''MAIN'' tok ''calls'' 1"
    by (intro say_call_in_literal) simp_all
  moreover from a have "''MAIN'' \<noteq> tok"
    by auto
  ultimately show "parseRexxControlFlow lc (''SAY '' @ q # ''CALL '' @ tok @ [q]) =
        \<lparr>nodes = [main_node,
           \<lparr>node_id = tok, node_label = tok, node_line = 1, node_kind = Function\<rparr>],
         edges = [\<lparr>edge_from = ''MAIN'', edge_to = tok, edge_type = ''calls'', edge_line = 1\<rparr>]\<rparr>"
    by (simp add: parseRexxControlFlow_def addEdge_def initial_def sort_by_def node_compare_def
        main_node_def del: One_nat_def)
next
  assume "(q = CHR 0x27 \<or> q = CHR 0x22) \<and> \<not> sublist ''CALL'' (a @ q # b @ ''CAL'')
        \<and> \<not> is_word (last (q # b)) \<and> list_all is_space ws
        \<and> tok \<noteq> [] \<and> list_all is_target_char tok \<and> (ws = [] \<longrightarrow> \<not> is_word (hd tok))
        \<and> (case r of [] \<Rightarrow> True | c # _ \<Rightarrow> \<not> is_target_char c)
        \<and> (case strip_prefix ''VALUE'' (tok @ r) of None \<Rightarrow> True | Some r2 \<Rightarrow> starts_word r2)"
  then have "exec_loop None ((a @ q # b) @ ''CALL'' @ ws @ tok @ r) =
          (tok, Some tok) # exec_loop (Some (last tok)) r"
    by (intro exec_loop_call_after_text) auto
  then show "exec_loop None (a @ q # b @ ''CALL'' @ ws @ tok @ r) =
          (tok, Some tok) # exec_loop (Some (last tok)) r"
    by simp
next
  assume h: "keys_agree st \<and> currentScope st = scope
        \<and> toUpperCase segment = a @ q # b @ ''CALL'' @ ws @ tok @ r
        \<and> (q = CHR 0x27 \<or> q = CHR 0x22) \<and> \<not> sublist ''CALL'' (a @ q # b @ ''CAL'')
        \<and> \<not> is_word (last (q # b)) \<and> list_all is_space ws
        \<and> tok \<noteq> [] \<and> list_all is_target_char tok \<and> (ws = [] \<longrightarrow> \<not> is_word (hd tok))
        \<and> (case r of [] \<Rightarrow> True | c # _ \<Rightarrow> \<not> is_target_char c)
        \<and> (case strip_prefix ''VALUE'' (tok @ r) of None \<Rightarrow> True | Some r2 \<Rightarrow> starts_word r2)
        \<and> tok \<noteq> ''ON'' \<and> tok \<noteq> ''OFF''"
  then have "exec_loop None ((a @ q # b) @ ''CALL'' @ ws @ tok @ r) =
          (tok, Some tok) # exec_loop (Some (last tok)) r"
    by (intro exec_loop_call_after_text) auto
  with h have "(tok, Some tok) \<in> set (exec_loop None (toUpperCase segment))"
    by simp
  with h show "(scope, tok, ''calls'') \<in> (\<lambda>e. (edge_from e, edge_to e, edge_type e)) `
          set (edges (process_segment n scope segment st))"
    by (intro process_segment_present) simp_all
next
  show "parseRexxControlFlow lc (''SAY 'CALL X'' @ [CHR 0x27]) =
     \<lparr>nodes = [main_node,
        \<lparr>node_id = ''X'', node_label = ''X'', node_line = 1, node_kind = Function\<rparr>],
      edges = [\<lparr>edge_from = ''MAIN'', edge_to = ''X'', edge_type = ''calls'', edge_line = 1\<rparr>]\<rparr>"
    by code_simp
qed

theorem call_inside_literal_witness:
  \<open>parseRexxControlFlow codeUnitCompare ''SAY "CALL UTIL.1"'' =
     \<lparr>nodes = [main_node,
        \<lparr>node_id = ''UTIL.1'', node_label = ''UTIL.1'', node_line = 1, node_kind = Function\<rparr>],
      edges = [\<lparr>edge_from = ''MAIN'', edge_to = ''UTIL.1'', edge_type = ''calls'',
        edge_line = 1\<rparr>]\<rparr>
   \<and> exec_loop None ''SAY "PLEASE CALL  HELP" X'' =
       (''HELP'', Some ''HELP'') # exec_loop (Some (CHR ''P'')) ''" X''
   \<and> (''MAIN'', ''HELP'', ''calls'') \<in> (\<lambda>e. (edge_from e, edge_to e, edge_type e)) `
       set (edges (process_segment 4 ''MAIN'' ''say "please call  help" x'' initial))\<close>
proof -
  note c = call_inside_literal_is_extracted
  have h1: \<open>(CHR 0x22 = CHR 0x27 \<or> CHR 0x22 = CHR 0x22) \<and> ''UTIL.1'' \<noteq> []
       \<and> list_all is_target_char ''UTIL.1''
       \<and> (case strip_prefix ''VALUE'' (''UTIL.1'' @ [CHR 0x22]) of None \<Rightarrow> True
           | Some r2 \<Rightarrow> starts_word r2)
       \<and> ''UTIL.1'' \<noteq> ''ON'' \<and> ''UTIL.1'' \<noteq> ''OFF'' \<and> ''UTIL.1'' \<noteq> ''MAIN''\<close>
    by code_simp
  have h2: \<open>(CHR 0x22 = CHR 0x27 \<or> CHR 0x22 = CHR 0x22)
        \<and> \<not> sublist ''CALL'' (''SAY '' @ CHR 0x22 # ''PLEASE '' @ ''CAL'')
        \<and> \<not> is_word (last (CHR 0x22 # ''PLEASE '')) \<and> list_all is_space ''  ''
        \<and> ''HELP'' \<noteq> [] \<and> list_all is_target_char ''HELP'' \<and> (''  '' = [] \<longrightarrow> \<not> is_word (hd ''HELP''))
        \<and> (case ''" X'' of [] \<Rightarrow> True | c # _ \<Rightarrow> \<not> is_target_char c)
        \<and> (case strip_prefix ''VALUE'' (''HELP'' @ ''" X'') of None \<Rightarrow> True
            | Some r2 \<Rightarrow> starts_word r2)\<close>
    by code_simp
  have k: "keys_agree initial"
    by (simp add: keys_agree_def initial_def) code_simp
  have u: \<open>toUpperCase ''say "please call  help" x'' =
      ''SAY '' @ CHR 0x22 # ''PLEASE '' @ ''CALL'' @ ''  '' @ ''HELP'' @ ''" X''\<close>
    by code_simp
  have h3: \<open>keys_agree initial \<and> currentScope initial = ''MAIN''
        \<and> toUpperCase ''say "please call  help" x'' =
            ''SAY '' @ CHR 0x22 # ''PLEASE '' @ ''CALL'' @ ''  '' @ ''HELP'' @ ''" X''
        \<and> (CHR 0x22 = CHR 0x27 \<or> CHR 0x22 = CHR 0x22)
        \<and> \<not> sublist ''CALL'' (''SAY '' @ CHR 0x22 # ''PLEASE '' @ ''CAL'')
        \<and> \<not> is_word (last (CHR 0x22 # ''PLEASE '')) \<and> list_all is_space ''  ''
        \<and> ''HELP'' \<noteq> [] \<and> list_all is_target_char ''HELP'' \<and> (''  '' = [] \<longrightarrow> \<not> is_word (hd ''HELP''))
        \<and> (case ''" X'' of [] \<Rightarrow> True | c # _ \<Rightarrow> \<not> is_target_char c)
        \<and> (case strip_prefix ''VALUE'' (''HELP'' @ ''" X'') of None \<Rightarrow> True
            | Some r2 \<Rightarrow> starts_word r2)
        \<and> ''HELP'' \<noteq> ''ON'' \<and> ''HELP'' \<noteq> ''OFF''\<close>
    using k u h2 by (simp add: initial_def)
  have a: \<open>parseRexxControlFlow codeUnitCompare ''SAY "CALL UTIL.1"'' =
     \<lparr>nodes = [main_node,
        \<lparr>node_id = ''UTIL.1'', node_label = ''UTIL.1'', node_line = 1, node_kind = Function\<rparr>],
      edges = [\<lparr>edge_from = ''MAIN'', edge_to = ''UTIL.1'', edge_type = ''calls'',
        edge_line = 1\<rparr>]\<rparr>\<close>
    using c [where q = "CHR 0x22" and tok = "''UTIL.1''" and lc = codeUnitCompare,
        THEN conjunct1, THEN mp, OF h1]
    by simp
  have b: \<open>exec_loop None ''SAY "PLEASE CALL  HELP" X'' =
       (''HELP'', Some ''HELP'') # exec_loop (Some (CHR ''P'')) ''" X''\<close>
    using c [where q = "CHR 0x22" and a = "''SAY ''" and b = "''PLEASE ''" and ws = "''  ''"
        and tok = "''HELP''" and r = \<open>''" X''\<close>, THEN conjunct2, THEN conjunct1, THEN mp, OF h2]
    by simp
  have d: \<open>(''MAIN'', ''HELP'', ''calls'') \<in> (\<lambda>e. (edge_from e, edge_to e, edge_type e)) `
       set (edges (process_segment 4 ''MAIN'' ''say "please call  help" x'' initial))\<close>
    by (rule c [THEN conjunct2, THEN conjunct2, THEN conjunct1, THEN mp, OF h3])
  from a b d show ?thesis
    by (intro conjI)
qed

text \<open>
  In the source \<open>SAY 'CALL "X"'\<close> the keyword stands inside a literal and a quote follows
  it: nothing is extracted.
\<close>

theorem keyword_inside_literal_counterexample:
  \<open>parseRexxControlFlow codeUnitCompare (''SAY 'CALL "X"'' @ [CHR 0x27]) =
     \<lparr>nodes = [main_node], edges = []\<rparr>\<close>
  by code_simp

end
